theory Spec2Isabelle
  imports Main "HOL-Library.Word"
begin

section \<open>The Escrow contract: data model\<close>

text \<open>
  The development follows \<^verbatim>\<open>contract Escrow is Ownable, ReentrancyGuard\<close> (Solidity 0.8.28).
  An \<^verbatim>\<open>address\<close> is a 160-bit word and a \<^verbatim>\<open>uint256\<close> a 256-bit word.
\<close>

type_synonym address = "160 word"
type_synonym uint256 = "256 word"

datatype OperationStatus = Active | Completed | Cancelled

text \<open>\<^verbatim>\<open>struct Operation\<close>; the field \<^verbatim>\<open>id\<close> is named \<open>op_id\<close> (\<open>id\<close> is HOL's identity).\<close>

record Operation =
  op_id :: uint256
  creator :: address
  tokenA :: address
  tokenB :: address
  amountA :: uint256
  amountB :: uint256
  status :: OperationStatus
  completer :: address

text \<open>
  A Solidity mapping is total: a key never written reads as the zero value of the struct
  (all words zero, the enum at its first member \<open>Active\<close>).
\<close>

definition zeroOperation :: Operation where
  "zeroOperation =
     \<lparr>op_id = 0, creator = 0, tokenA = 0, tokenB = 0, amountA = 0, amountB = 0,
      status = Active, completer = 0\<rparr>"

datatype event =
    TokenAdded address
  | OperationCreated uint256 address address address uint256 uint256
  | OperationCompleted uint256 address
  | OperationCancelled uint256

text \<open>
  A revert is a value. Each \<^verbatim>\<open>require\<close> keeps the message of the source and carries the
  category the specification's taxonomy gives it; \<open>ReentrancyError\<close> is the guard's
  \<^verbatim>\<open>ReentrancyGuardReentrantCall\<close>, \<open>Panic\<close> the checked-arithmetic panic of
  \<^verbatim>\<open>operationCounter++\<close>, \<open>TransferError\<close> a transfer the asset declined.
\<close>

datatype error =
    ReentrancyError
  | AuthorizationError string
  | ValidationError string
  | StateError string
  | TransferError
  | Panic

text \<open>
  The contract's storage: \<open>owner\<close> is \<^verbatim>\<open>Ownable._owner\<close>, \<open>entered\<close> says that
  \<^verbatim>\<open>ReentrancyGuard._status\<close> is \<^verbatim>\<open>ENTERED\<close>, the rest are the state variables of
  \<^verbatim>\<open>Escrow\<close>.
\<close>

record Escrow =
  owner :: address
  entered :: bool
  operationCounter :: uint256
  operations :: "uint256 \<Rightarrow> Operation"
  allowedTokens :: "address \<Rightarrow> bool"
  allowedTokensList :: "address list"
  operationIds :: "uint256 list"

text \<open>
  What one transaction can touch: the contract at address \<open>this\<close> with its storage, every
  asset's balances (\<open>balances w token holder\<close>) and allowances
  (\<open>allowances w token holder spender\<close>), and the event log. Balances are natural
  numbers: a conforming asset keeps its total supply below \<open>2 ^ 256\<close>, so no balance wraps.
\<close>

record World =
  this :: address
  escrow :: Escrow
  balances :: "address \<Rightarrow> address \<Rightarrow> nat"
  allowances :: "address \<Rightarrow> address \<Rightarrow> address \<Rightarrow> nat"
  events :: "event list"

text \<open>
  The two calls the contract makes into an asset, \<^verbatim>\<open>IERC20(token).safeTransferFrom(from, to, value)\<close>
  and \<^verbatim>\<open>IERC20(token).safeTransfer(to, value)\<close>. The asset is code outside the contract, so
  the entry points take it as a parameter: it may fail, move balances, or run any code
  of its own on the world it is given.
\<close>

record Provider =
  safeTransferFrom :: "address \<Rightarrow> address \<Rightarrow> address \<Rightarrow> uint256 \<Rightarrow> World \<Rightarrow> error + World"
  safeTransfer :: "address \<Rightarrow> address \<Rightarrow> uint256 \<Rightarrow> World \<Rightarrow> error + World"

section \<open>The conforming asset\<close>

definition move :: "address \<Rightarrow> address \<Rightarrow> address \<Rightarrow> nat \<Rightarrow>
    (address \<Rightarrow> address \<Rightarrow> nat) \<Rightarrow> (address \<Rightarrow> address \<Rightarrow> nat)" where
  "move token from to n bal =
     (let b1 = (bal token)(from := bal token from - n);
          b2 = b1(to := b1 to + n)
      in bal(token := b2))"

text \<open>
  Modelled from the spec: the AssetTransferProvider (OpenZeppelin's \<^verbatim>\<open>ERC20\<close> and
  \<^verbatim>\<open>SafeERC20\<close> are libraries outside the repository). \<open>moveIn(asset, from, to, amount)\<close>
  needs that \<open>from\<close> holds the amount and has granted the ledger at least that much
  authorization, which it consumes; \<open>moveOut(asset, to, amount)\<close> pays out of the
  ledger's own balance; a failure leaves no partial effect.
\<close>

definition moveIn :: "address \<Rightarrow> address \<Rightarrow> address \<Rightarrow> uint256 \<Rightarrow> World \<Rightarrow> error + World" where
  "moveIn token from to v w =
     (if allowances w token from (this w) < unat v \<or> balances w token from < unat v
      then Inl TransferError
      else Inr (w\<lparr>allowances := (allowances w)(token := (allowances w token)
                       (from := (allowances w token from)
                          (this w := allowances w token from (this w) - unat v))),
                  balances := move token from to (unat v) (balances w)\<rparr>))"

definition moveOut :: "address \<Rightarrow> address \<Rightarrow> uint256 \<Rightarrow> World \<Rightarrow> error + World" where
  "moveOut token to v w =
     (if balances w token (this w) < unat v then Inl TransferError
      else Inr (w\<lparr>balances := move token (this w) to (unat v) (balances w)\<rparr>))"

definition conforming :: Provider where
  "conforming = \<lparr>safeTransferFrom = moveIn, safeTransfer = moveOut\<rparr>"

section \<open>Modifiers and constructor\<close>

text \<open>\<^verbatim>\<open>constructor() Ownable(msg.sender) { operationCounter = 0; }\<close>\<close>

definition constructor :: "address \<Rightarrow> Escrow" where
  "constructor sender =
     \<lparr>owner = sender, entered = False, operationCounter = 0,
      operations = (\<lambda>_. zeroOperation), allowedTokens = (\<lambda>_. False),
      allowedTokensList = [], operationIds = []\<rparr>"

text \<open>\<^verbatim>\<open>onlyOwner\<close>: reverts unless the caller is the stored owner.\<close>

definition onlyOwner :: "address \<Rightarrow> (World \<Rightarrow> error + World) \<Rightarrow> World \<Rightarrow> error + World" where
  "onlyOwner sender body w =
     (if owner (escrow w) \<noteq> sender then Inl (AuthorizationError ''OwnableUnauthorizedAccount'')
      else body w)"

text \<open>
  \<^verbatim>\<open>nonReentrant\<close>: reverts if the flag is set; otherwise sets it (\<open>engage\<close>), runs the
  body, and clears it (\<open>release\<close>). A revert of the body is a revert of the call, which
  restores the flag with everything else.
\<close>

definition engage :: "World \<Rightarrow> World" where
  "engage w = w\<lparr>escrow := (escrow w)\<lparr>entered := True\<rparr>\<rparr>"

definition release :: "World \<Rightarrow> World" where
  "release w = w\<lparr>escrow := (escrow w)\<lparr>entered := False\<rparr>\<rparr>"

definition nonReentrant :: "(World \<Rightarrow> error + World) \<Rightarrow> World \<Rightarrow> error + World" where
  "nonReentrant body w =
     (if entered (escrow w) then Inl ReentrancyError
      else case body (engage w) of
             Inl e \<Rightarrow> Inl e
           | Inr w' \<Rightarrow> Inr (release w'))"

section \<open>State-mutating entry points\<close>

text \<open>A read of \<^verbatim>\<open>operations[i]\<close>, a write to it, and \<^verbatim>\<open>emit\<close>.\<close>

definition opAt :: "World \<Rightarrow> uint256 \<Rightarrow> Operation" where
  "opAt w i = operations (escrow w) i"

definition storeOperation :: "uint256 \<Rightarrow> Operation \<Rightarrow> World \<Rightarrow> World" where
  "storeOperation i p w = w\<lparr>escrow := (escrow w)\<lparr>operations := (operations (escrow w))(i := p)\<rparr>\<rparr>"

definition emit :: "event \<Rightarrow> World \<Rightarrow> World" where
  "emit ev w = w\<lparr>events := events w @ [ev]\<rparr>"

definition addToken :: "address \<Rightarrow> address \<Rightarrow> World \<Rightarrow> error + World" where
  "addToken sender token =
     onlyOwner sender (\<lambda>w.
       if token = 0 then Inl (ValidationError ''Invalid token address'')
       else if allowedTokens (escrow w) token then Inl (StateError ''Token already allowed'')
       else Inr (emit (TokenAdded token)
                  (w\<lparr>escrow := (escrow w)
                      \<lparr>allowedTokens := (allowedTokens (escrow w))(token := True),
                       allowedTokensList := allowedTokensList (escrow w) @ [token]\<rparr>\<rparr>)))"

text \<open>
  \<^verbatim>\<open>createOperation\<close>: five checks and the deposit, then (\<open>recordOperation\<close>) the
  record, the index and the counter, whose checked increment panics at \<open>2 ^ 256 - 1\<close>,
  then the event.
\<close>

definition recordOperation :: "address \<Rightarrow> address \<Rightarrow> address \<Rightarrow> uint256 \<Rightarrow> uint256 \<Rightarrow> World \<Rightarrow> error + World" where
  "recordOperation sender tA tB aA aB w =
     (let newOperationId = operationCounter (escrow w);
          w1 = storeOperation newOperationId
                 \<lparr>op_id = newOperationId, creator = sender, tokenA = tA, tokenB = tB,
                  amountA = aA, amountB = aB, status = Active, completer = 0\<rparr> w;
          w2 = w1\<lparr>escrow := (escrow w1)\<lparr>operationIds := operationIds (escrow w1) @ [newOperationId]\<rparr>\<rparr>
      in if operationCounter (escrow w2) = - 1 then Inl Panic
         else Inr (emit (OperationCreated newOperationId sender tA tB aA aB)
                    (w2\<lparr>escrow := (escrow w2)\<lparr>operationCounter := operationCounter (escrow w2) + 1\<rparr>\<rparr>)))"

definition createOperation ::
    "Provider \<Rightarrow> address \<Rightarrow> address \<Rightarrow> address \<Rightarrow> uint256 \<Rightarrow> uint256 \<Rightarrow> World \<Rightarrow> error + World" where
  "createOperation P sender tA tB aA aB =
     nonReentrant (\<lambda>w.
       if \<not> allowedTokens (escrow w) tA then Inl (ValidationError ''TokenA not allowed'')
       else if \<not> allowedTokens (escrow w) tB then Inl (ValidationError ''TokenB not allowed'')
       else if tA = tB then Inl (ValidationError ''Tokens must be different'')
       else if aA = 0 then Inl (ValidationError ''AmountA must be greater than 0'')
       else if aB = 0 then Inl (ValidationError ''AmountB must be greater than 0'')
       else case safeTransferFrom P tA sender (this w) aA w of
              Inl e \<Rightarrow> Inl e
            | Inr w1 \<Rightarrow> recordOperation sender tA tB aA aB w1)"

text \<open>
  \<^verbatim>\<open>completeOperation\<close>: \<^verbatim>\<open>operation\<close> is a storage pointer, so every read after an
  external call reads the storage of the world that call returned.
\<close>

definition completeOperation :: "Provider \<Rightarrow> address \<Rightarrow> uint256 \<Rightarrow> World \<Rightarrow> error + World" where
  "completeOperation P sender i =
     nonReentrant (\<lambda>w.
       if creator (opAt w i) = 0 then Inl (StateError ''Operation does not exist'')
       else if status (opAt w i) \<noteq> Active then Inl (StateError ''Operation not active'')
       else if sender = creator (opAt w i)
         then Inl (AuthorizationError ''Creator cannot complete own operation'')
       else
         let w1 = storeOperation i ((opAt w i)\<lparr>status := Completed, completer := sender\<rparr>) w
         in case safeTransferFrom P (tokenB (opAt w1 i)) sender (creator (opAt w1 i))
                   (amountB (opAt w1 i)) w1 of
              Inl e \<Rightarrow> Inl e
            | Inr w2 \<Rightarrow>
                (case safeTransfer P (tokenA (opAt w2 i)) sender (amountA (opAt w2 i)) w2 of
                   Inl e \<Rightarrow> Inl e
                 | Inr w3 \<Rightarrow> Inr (emit (OperationCompleted i sender) w3)))"

definition cancelOperation :: "Provider \<Rightarrow> address \<Rightarrow> uint256 \<Rightarrow> World \<Rightarrow> error + World" where
  "cancelOperation P sender i =
     nonReentrant (\<lambda>w.
       if creator (opAt w i) = 0 then Inl (StateError ''Operation does not exist'')
       else if status (opAt w i) \<noteq> Active then Inl (StateError ''Operation not active'')
       else if sender \<noteq> creator (opAt w i) then Inl (AuthorizationError ''Only creator can cancel'')
       else
         let w1 = storeOperation i ((opAt w i)\<lparr>status := Cancelled\<rparr>) w
         in case safeTransfer P (tokenA (opAt w1 i)) (creator (opAt w1 i))
                   (amountA (opAt w1 i)) w1 of
              Inl e \<Rightarrow> Inl e
            | Inr w2 \<Rightarrow> Inr (emit (OperationCancelled i) w2))"

section \<open>Views\<close>

definition getAllowedTokens :: "World \<Rightarrow> address list" where
  "getAllowedTokens w = allowedTokensList (escrow w)"

text \<open>The loop of \<^verbatim>\<open>getAllOperations\<close> copies \<^verbatim>\<open>operations[operationIds[i]]\<close> for each index.\<close>

definition getAllOperations :: "World \<Rightarrow> Operation list" where
  "getAllOperations w = map (operations (escrow w)) (operationIds (escrow w))"

definition getOperation :: "World \<Rightarrow> uint256 \<Rightarrow> error + Operation" where
  "getOperation w i =
     (if creator (opAt w i) = 0 then Inl (StateError ''Operation does not exist'')
      else Inr (opAt w i))"

definition getOperationCount :: "World \<Rightarrow> uint256" where
  "getOperationCount w = operationCounter (escrow w)"

section \<open>Calls and transactions\<close>

datatype call =
    AddToken address
  | CreateOperation address address uint256 uint256
  | CompleteOperation uint256
  | CancelOperation uint256

text \<open>
  An external call by \<open>sender\<close>: on success the words of return data and the new world.
  None of the four functions declares a \<^verbatim>\<open>returns\<close> clause, so each hands back no word.
\<close>

fun invoke :: "Provider \<Rightarrow> address \<Rightarrow> call \<Rightarrow> World \<Rightarrow> error + uint256 list \<times> World" where
  "invoke P sender (AddToken token) w = map_sum id (Pair []) (addToken sender token w)"
| "invoke P sender (CreateOperation tA tB aA aB) w =
     map_sum id (Pair []) (createOperation P sender tA tB aA aB w)"
| "invoke P sender (CompleteOperation i) w = map_sum id (Pair []) (completeOperation P sender i w)"
| "invoke P sender (CancelOperation i) w = map_sum id (Pair []) (cancelOperation P sender i w)"

text \<open>The world a transaction leaves behind: a revert restores the world it started in.\<close>

definition settle :: "World \<Rightarrow> error + World \<Rightarrow> World" where
  "settle w r = (case r of Inl e \<Rightarrow> w | Inr w' \<Rightarrow> w')"

text \<open>
  Deployment at address \<open>addr\<close> by \<open>sender\<close>, into a world where the assets already have
  holders and allowances; the new contract holds nothing.
\<close>

definition deploy :: "address \<Rightarrow> address \<Rightarrow> (address \<Rightarrow> address \<Rightarrow> nat) \<Rightarrow>
    (address \<Rightarrow> address \<Rightarrow> address \<Rightarrow> nat) \<Rightarrow> World" where
  "deploy sender addr bal alw =
     \<lparr>this = addr, escrow = constructor sender,
      balances = (\<lambda>token holder. if holder = addr then 0 else bal token holder),
      allowances = alw, events = []\<rparr>"

text \<open>
  The states the contract can be in between transactions with conforming assets. A
  caller is an account or another contract: never the zero address and never the
  Escrow itself, which makes no call to its own entry points.
\<close>

inductive reachable :: "World \<Rightarrow> bool" where
  deployed: "sender \<noteq> 0 \<Longrightarrow> reachable (deploy sender addr bal alw)"
| called: "reachable w \<Longrightarrow> sender \<noteq> 0 \<Longrightarrow> sender \<noteq> this w \<Longrightarrow>
     invoke conforming sender c w = Inr (r, w') \<Longrightarrow> reachable w'"

text \<open>
  The custodied amount of an asset: the sum of \<open>amountA\<close> over the operations that are
  \<open>Active\<close> and whose \<open>tokenA\<close> is that asset.
\<close>

definition custodied :: "World \<Rightarrow> address \<Rightarrow> nat" where
  "custodied w X =
     sum_list (map (\<lambda>p. unat (amountA p))
       (filter (\<lambda>p. tokenA p = X \<and> status p = Active) (getAllOperations w)))"

text \<open>
  A sequence of transactions with conforming assets, each by its own caller: \<open>run\<close> is
  the world it leaves, \<open>successful\<close> the calls of the sequence that did not revert.
\<close>

fun run :: "(address \<times> call) list \<Rightarrow> World \<Rightarrow> World" where
  "run [] w = w"
| "run ((sender, c) # cs) w =
     (case invoke conforming sender c w of
        Inl e \<Rightarrow> run cs w
      | Inr (r, w') \<Rightarrow> run cs w')"

fun successful :: "(address \<times> call) list \<Rightarrow> World \<Rightarrow> (address \<times> call) list" where
  "successful [] w = []"
| "successful ((sender, c) # cs) w =
     (case invoke conforming sender c w of
        Inl e \<Rightarrow> successful cs w
      | Inr (r, w') \<Rightarrow> (sender, c) # successful cs w')"

text \<open>The two terminal transitions of operation \<open>i\<close>.\<close>

fun terminal :: "uint256 \<Rightarrow> address \<times> call \<Rightarrow> bool" where
  "terminal i (sender, CompleteOperation j) = (j = i)"
| "terminal i (sender, CancelOperation j) = (j = i)"
| "terminal i (sender, c) = False"

text \<open>
  An asset that, inside each of its transfer functions, first calls back into the
  ledger as \<open>attacker\<close> (catching a revert of that nested call) and then moves the
  balances as a conforming asset does.
\<close>

definition reentering :: "address \<Rightarrow> call \<Rightarrow> Provider" where
  "reentering attacker c =
     \<lparr>safeTransferFrom = (\<lambda>token from to v w.
        moveIn token from to v (settle w (map_sum id snd (invoke conforming attacker c w)))),
      safeTransfer = (\<lambda>token to v w.
        moveOut token to v (settle w (map_sum id snd (invoke conforming attacker c w))))\<rparr>"

text \<open>The calls behind the \<^verbatim>\<open>nonReentrant\<close> modifier.\<close>

fun guarded :: "call \<Rightarrow> bool" where
  "guarded (AddToken token) = False"
| "guarded c = True"

section \<open>Invariants\<close>

text \<open>
  What every state between transactions satisfies whoever the callers were: the guard is
  free, a record exists only below the counter, and only an existing record has left
  \<open>Active\<close>.
\<close>

definition stable :: "World \<Rightarrow> bool" where
  "stable w \<longleftrightarrow>
     \<not> entered (escrow w) \<and>
     (\<forall>j. creator (opAt w j) \<noteq> 0 \<longrightarrow> j < operationCounter (escrow w)) \<and>
     (\<forall>j. status (opAt w j) \<noteq> Active \<longrightarrow> creator (opAt w j) \<noteq> 0)"

text \<open>What one record adds to the custody of asset \<open>X\<close>.\<close>

definition held :: "address \<Rightarrow> Operation \<Rightarrow> nat" where
  "held X p = (if tokenA p = X \<and> status p = Active then unat (amountA p) else 0)"

text \<open>
  What every state between transactions satisfies when the callers are accounts or
  contracts other than the Escrow: the index lists the ids below the counter in order,
  every record below the counter exists with its own id and a creator that is not the
  Escrow, an \<open>Active\<close> record has no completer, and custody is conserved.
\<close>

definition ledger_ok :: "World \<Rightarrow> bool" where
  "ledger_ok w \<longleftrightarrow>
     operationIds (escrow w) = map word_of_nat [0..<unat (operationCounter (escrow w))] \<and>
     (\<forall>j. j < operationCounter (escrow w) \<longrightarrow>
        creator (opAt w j) \<noteq> 0 \<and> creator (opAt w j) \<noteq> this w \<and> op_id (opAt w j) = j) \<and>
     (\<forall>j. status (opAt w j) = Active \<longrightarrow> completer (opAt w j) = 0) \<and>
     (\<forall>X. balances w X (this w) = custodied w X)"

text \<open>
  Two worlds with the same operation records, index, counter and guard flag.
\<close>

definition same_records :: "World \<Rightarrow> World \<Rightarrow> bool" where
  "same_records a b \<longleftrightarrow>
     operations (escrow a) = operations (escrow b) \<and>
     operationIds (escrow a) = operationIds (escrow b) \<and>
     operationCounter (escrow a) = operationCounter (escrow b) \<and>
     entered (escrow a) = entered (escrow b)"

section \<open>A concrete scenario\<close>

text \<open>
  The owner is account 1 and the contract sits at address 100; every account holds 1000
  of every asset and has approved 500 to every spender. The owner allowlists assets 10
  and 11 and account 2 creates operation 0, 100 of asset 10 for 50 of asset 11
  (\<open>demo3\<close>). From there account 3 completes it (\<open>demo4\<close>), or account 2 cancels
  it (\<open>demo5\<close>), or account 2 creates operation 1 at a price of 600, more than anyone
  has approved (\<open>demo6\<close>). In \<open>demo7\<close> and \<open>demo8\<close> operation 0 is completed and
  cancelled with an asset that calls \<open>addToken(12)\<close> as the owner from within its
  transfers.
\<close>

definition demo0 :: World where
  "demo0 = deploy 1 100 (\<lambda>token holder. 1000) (\<lambda>token holder spender. 500)"

definition demo1 :: World where
  "demo1 = settle demo0 (addToken 1 10 demo0)"

definition demo2 :: World where
  "demo2 = settle demo1 (addToken 1 11 demo1)"

definition demo3 :: World where
  "demo3 = settle demo2 (createOperation conforming 2 10 11 100 50 demo2)"

definition demo4 :: World where
  "demo4 = settle demo3 (completeOperation conforming 3 0 demo3)"

definition demo5 :: World where
  "demo5 = settle demo3 (cancelOperation conforming 2 0 demo3)"

definition demo6 :: World where
  "demo6 = settle demo3 (createOperation conforming 2 10 11 100 600 demo3)"

definition demo7 :: World where
  "demo7 = settle demo3 (completeOperation (reentering 1 (AddToken 12)) 3 0 demo3)"

definition demo8 :: World where
  "demo8 = settle demo3 (cancelOperation (reentering 1 (AddToken 12)) 2 0 demo3)"

section \<open>Basic facts\<close>

lemmas world_defs = engage_def release_def storeOperation_def emit_def opAt_def

lemmas eval_defs = deploy_def constructor_def settle_def addToken_def onlyOwner_def
  createOperation_def recordOperation_def completeOperation_def cancelOperation_def
  nonReentrant_def conforming_def moveIn_def moveOut_def move_def world_defs Let_def

lemmas demo_defs = demo4_def demo3_def demo2_def demo1_def demo0_def

lemma settle_Inl [simp]: "settle w (Inl e) = w"
  by (simp add: settle_def)

lemma settle_Inr [simp]: "settle w (Inr w') = w'"
  by (simp add: settle_def)

lemma nonReentrant_entered: "entered (escrow w) \<Longrightarrow> nonReentrant body w = Inl ReentrancyError"
  by (simp add: nonReentrant_def)

lemma nonReentrant_InrD:
  assumes "nonReentrant body w = Inr w'"
  shows "\<not> entered (escrow w)" "\<exists>w1. body (engage w) = Inr w1 \<and> w' = release w1"
  using assms by (simp_all add: nonReentrant_def split: if_splits sum.splits)

lemma demo1_eq: "addToken 1 10 demo0 = Inr demo1"
  by (simp add: demo_defs eval_defs)

lemma demo2_eq: "addToken 1 11 demo1 = Inr demo2"
  by (simp add: demo_defs eval_defs)

lemma demo3_eq: "createOperation conforming 2 10 11 100 50 demo2 = Inr demo3"
  by (simp add: demo_defs eval_defs)

lemma demo4_eq: "completeOperation conforming 3 0 demo3 = Inr demo4"
  by (simp add: demo_defs eval_defs)

lemma demo3_op:
  "opAt demo3 0 = \<lparr>op_id = 0, creator = 2, tokenA = 10, tokenB = 11, amountA = 100,
     amountB = 50, status = Active, completer = 0\<rparr>"
  by (simp add: demo_defs eval_defs)

lemma demo3_free: "\<not> entered (escrow demo3)"
  by (simp add: demo_defs eval_defs)

lemma demo4_op:
  "opAt demo4 0 = \<lparr>op_id = 0, creator = 2, tokenA = 10, tokenB = 11, amountA = 100,
     amountB = 50, status = Completed, completer = 3\<rparr>"
  by (simp add: demo_defs eval_defs)

lemma reachable_demo0: "reachable demo0"
  unfolding demo0_def by (rule reachable.deployed) simp

lemma reachable_demo1: "reachable demo1"
  by (rule reachable.called [OF reachable_demo0, of 1 "AddToken 10" "[]"])
     (simp_all add: demo1_eq, simp add: demo0_def deploy_def)

lemma reachable_demo2: "reachable demo2"
  by (rule reachable.called [OF reachable_demo1, of 1 "AddToken 11" "[]"])
     (simp_all add: demo2_eq, simp add: demo_defs eval_defs)

lemma reachable_demo3: "reachable demo3"
  by (rule reachable.called [OF reachable_demo2, of 2 "CreateOperation 10 11 100 50" "[]"])
     (simp_all add: demo3_eq, simp add: demo_defs eval_defs)

lemma reachable_demo4: "reachable demo4"
  by (rule reachable.called [OF reachable_demo3, of 3 "CompleteOperation 0" "[]"])
     (simp_all add: demo4_eq, simp add: demo_defs eval_defs)

section \<open>What a successful call did\<close>

lemma moveIn_InrD:
  assumes "moveIn token from to v w = Inr w'"
  shows "unat v \<le> allowances w token from (this w)" "unat v \<le> balances w token from"
    "w' = w\<lparr>allowances := (allowances w)(token := (allowances w token)
                       (from := (allowances w token from)
                          (this w := allowances w token from (this w) - unat v))),
                  balances := move token from to (unat v) (balances w)\<rparr>"
  using assms by (simp_all add: moveIn_def split: if_splits)

lemma moveOut_InrD:
  assumes "moveOut token to v w = Inr w'"
  shows "unat v \<le> balances w token (this w)"
    "w' = w\<lparr>balances := move token (this w) to (unat v) (balances w)\<rparr>"
  using assms by (simp_all add: moveOut_def split: if_splits)

lemma addToken_InrD:
  assumes "addToken sender token w = Inr w'"
  shows "owner (escrow w) = sender" "token \<noteq> 0" "\<not> allowedTokens (escrow w) token"
    "w' = emit (TokenAdded token)
            (w\<lparr>escrow := (escrow w)
                \<lparr>allowedTokens := (allowedTokens (escrow w))(token := True),
                 allowedTokensList := allowedTokensList (escrow w) @ [token]\<rparr>\<rparr>)"
  using assms by (simp_all add: addToken_def onlyOwner_def split: if_splits)

lemma recordOperation_Inr:
  assumes "recordOperation sender tA tB aA aB w = Inr w'"
  shows "operationCounter (escrow w) \<noteq> - 1 \<and>
    w' = w\<lparr>escrow := (escrow w)
       \<lparr>operations := (operations (escrow w))(operationCounter (escrow w) :=
          \<lparr>op_id = operationCounter (escrow w), creator = sender, tokenA = tA, tokenB = tB,
           amountA = aA, amountB = aB, status = Active, completer = 0\<rparr>),
        operationIds := operationIds (escrow w) @ [operationCounter (escrow w)],
        operationCounter := operationCounter (escrow w) + 1\<rparr>,
      events := events w @ [OperationCreated (operationCounter (escrow w)) sender tA tB aA aB]\<rparr>"
  using assms by (simp add: recordOperation_def Let_def world_defs eq_commute split: if_splits)

lemma recordOperation_InrD:
  assumes "recordOperation sender tA tB aA aB w = Inr w'"
  shows "operationCounter (escrow w) \<noteq> - 1"
    "this w' = this w" "balances w' = balances w" "allowances w' = allowances w"
    "events w' = events w @ [OperationCreated (operationCounter (escrow w)) sender tA tB aA aB]"
    "escrow w' = (escrow w)
       \<lparr>operations := (operations (escrow w))(operationCounter (escrow w) :=
          \<lparr>op_id = operationCounter (escrow w), creator = sender, tokenA = tA, tokenB = tB,
           amountA = aA, amountB = aB, status = Active, completer = 0\<rparr>),
        operationIds := operationIds (escrow w) @ [operationCounter (escrow w)],
        operationCounter := operationCounter (escrow w) + 1\<rparr>"
  using recordOperation_Inr [OF assms] by simp_all

lemma createOperation_InrD:
  assumes "createOperation conforming sender tA tB aA aB w = Inr w'"
  shows "\<not> entered (escrow w)" "allowedTokens (escrow w) tA" "allowedTokens (escrow w) tB"
    "tA \<noteq> tB" "aA \<noteq> 0" "aB \<noteq> 0"
    "unat aA \<le> allowances w tA sender (this w)" "unat aA \<le> balances w tA sender"
    "operationCounter (escrow w) \<noteq> - 1"
    "this w' = this w"
    "balances w' = move tA sender (this w) (unat aA) (balances w)"
    "events w' = events w @ [OperationCreated (operationCounter (escrow w)) sender tA tB aA aB]"
    "escrow w' = (escrow w)
       \<lparr>operations := (operations (escrow w))(operationCounter (escrow w) :=
          \<lparr>op_id = operationCounter (escrow w), creator = sender, tokenA = tA, tokenB = tB,
           amountA = aA, amountB = aB, status = Active, completer = 0\<rparr>),
        operationIds := operationIds (escrow w) @ [operationCounter (escrow w)],
        operationCounter := operationCounter (escrow w) + 1\<rparr>"
proof -
  from nonReentrant_InrD [OF assms [unfolded createOperation_def]]
  obtain w1 where ne: "\<not> entered (escrow w)" and
    body: "(if \<not> allowedTokens (escrow (engage w)) tA then Inl (ValidationError ''TokenA not allowed'')
       else if \<not> allowedTokens (escrow (engage w)) tB then Inl (ValidationError ''TokenB not allowed'')
       else if tA = tB then Inl (ValidationError ''Tokens must be different'')
       else if aA = 0 then Inl (ValidationError ''AmountA must be greater than 0'')
       else if aB = 0 then Inl (ValidationError ''AmountB must be greater than 0'')
       else case safeTransferFrom conforming tA sender (this (engage w)) aA (engage w) of
              Inl e \<Rightarrow> Inl e
            | Inr w1 \<Rightarrow> recordOperation sender tA tB aA aB w1) = Inr w1"
    and w': "w' = release w1"
    by blast
  show "\<not> entered (escrow w)" by (rule ne)
  from body show c1: "allowedTokens (escrow w) tA" by (simp add: engage_def split: if_splits)
  from body show c2: "allowedTokens (escrow w) tB" by (simp add: engage_def split: if_splits)
  from body show c3: "tA \<noteq> tB" by (simp split: if_splits)
  from body show c4: "aA \<noteq> 0" by (simp split: if_splits)
  from body show c5: "aB \<noteq> 0" by (simp split: if_splits)
  from body c1 c2 c3 c4 c5 obtain w0 where
    mi: "moveIn tA sender (this w) aA (engage w) = Inr w0"
    and rec: "recordOperation sender tA tB aA aB w0 = Inr w1"
    by (simp add: engage_def conforming_def split: sum.splits)
  note d = moveIn_InrD [OF mi]
  note r = recordOperation_InrD [OF rec]
  from d(1) show "unat aA \<le> allowances w tA sender (this w)" by (simp add: engage_def)
  from d(2) show "unat aA \<le> balances w tA sender" by (simp add: engage_def)
  from r(1) show "operationCounter (escrow w) \<noteq> - 1" by (simp add: d(3) engage_def)
  show "this w' = this w" by (simp add: w' r(2) d(3) world_defs)
  show "balances w' = move tA sender (this w) (unat aA) (balances w)"
    by (simp add: w' r(3) d(3) world_defs)
  show "events w' = events w @ [OperationCreated (operationCounter (escrow w)) sender tA tB aA aB]"
    by (simp add: w' r(5) d(3) world_defs)
  show "escrow w' = (escrow w)
       \<lparr>operations := (operations (escrow w))(operationCounter (escrow w) :=
          \<lparr>op_id = operationCounter (escrow w), creator = sender, tokenA = tA, tokenB = tB,
           amountA = aA, amountB = aB, status = Active, completer = 0\<rparr>),
        operationIds := operationIds (escrow w) @ [operationCounter (escrow w)],
        operationCounter := operationCounter (escrow w) + 1\<rparr>"
    using ne by (simp add: w' r(6) d(3) world_defs)
qed

lemma completeOperation_InrD:
  assumes "completeOperation conforming sender i w = Inr w'"
  shows "\<not> entered (escrow w)" "creator (opAt w i) \<noteq> 0" "status (opAt w i) = Active"
    "sender \<noteq> creator (opAt w i)"
    "unat (amountB (opAt w i)) \<le> allowances w (tokenB (opAt w i)) sender (this w)"
    "unat (amountB (opAt w i)) \<le> balances w (tokenB (opAt w i)) sender"
    "unat (amountA (opAt w i)) \<le>
       move (tokenB (opAt w i)) sender (creator (opAt w i)) (unat (amountB (opAt w i)))
         (balances w) (tokenA (opAt w i)) (this w)"
    "this w' = this w"
    "events w' = events w @ [OperationCompleted i sender]"
    "balances w' = move (tokenA (opAt w i)) (this w) sender (unat (amountA (opAt w i)))
       (move (tokenB (opAt w i)) sender (creator (opAt w i)) (unat (amountB (opAt w i)))
         (balances w))"
    "escrow w' = (escrow w)\<lparr>operations := (operations (escrow w))
       (i := (opAt w i)\<lparr>status := Completed, completer := sender\<rparr>)\<rparr>"
proof -
  from nonReentrant_InrD [OF assms [unfolded completeOperation_def]]
  obtain w0 where ne: "\<not> entered (escrow w)" and
    body: "(if creator (opAt (engage w) i) = 0 then Inl (StateError ''Operation does not exist'')
       else if status (opAt (engage w) i) \<noteq> Active then Inl (StateError ''Operation not active'')
       else if sender = creator (opAt (engage w) i)
         then Inl (AuthorizationError ''Creator cannot complete own operation'')
       else
         let w1 = storeOperation i ((opAt (engage w) i)\<lparr>status := Completed, completer := sender\<rparr>) (engage w)
         in case safeTransferFrom conforming (tokenB (opAt w1 i)) sender (creator (opAt w1 i))
                   (amountB (opAt w1 i)) w1 of
              Inl e \<Rightarrow> Inl e
            | Inr w2 \<Rightarrow>
                (case safeTransfer conforming (tokenA (opAt w2 i)) sender (amountA (opAt w2 i)) w2 of
                   Inl e \<Rightarrow> Inl e
                 | Inr w3 \<Rightarrow> Inr (emit (OperationCompleted i sender) w3))) = Inr w0"
    and w': "w' = release w0"
    by blast
  show "\<not> entered (escrow w)" by (rule ne)
  from body show c: "creator (opAt w i) \<noteq> 0" by (simp add: world_defs split: if_splits)
  from body show s: "status (opAt w i) = Active" by (simp add: world_defs split: if_splits)
  from body show a: "sender \<noteq> creator (opAt w i)" by (simp add: world_defs split: if_splits)
  define w1 where "w1 = storeOperation i ((opAt w i)\<lparr>status := Completed, completer := sender\<rparr>) (engage w)"
  have p1: "opAt w1 i = (opAt w i)\<lparr>status := Completed, completer := sender\<rparr>"
    by (simp add: w1_def world_defs)
  from body c s a obtain w2 where
    mi: "moveIn (tokenB (opAt w i)) sender (creator (opAt w i)) (amountB (opAt w i)) w1 = Inr w2"
    and rest: "(case moveOut (tokenA (opAt w2 i)) sender (amountA (opAt w2 i)) w2 of
                   Inl e \<Rightarrow> Inl e
                 | Inr w3 \<Rightarrow> Inr (emit (OperationCompleted i sender) w3)) = Inr w0"
    by (simp add: w1_def world_defs conforming_def Let_def split: sum.splits)
  note d = moveIn_InrD [OF mi]
  have p2: "opAt w2 i = (opAt w i)\<lparr>status := Completed, completer := sender\<rparr>"
    by (simp add: d(3) w1_def world_defs)
  from rest obtain w3 where
    mo: "moveOut (tokenA (opAt w i)) sender (amountA (opAt w i)) w2 = Inr w3"
    and w0: "w0 = emit (OperationCompleted i sender) w3"
    by (simp add: p2 split: sum.splits)
  note d2 = moveOut_InrD [OF mo]
  from d(1) show "unat (amountB (opAt w i)) \<le> allowances w (tokenB (opAt w i)) sender (this w)"
    by (simp add: w1_def world_defs)
  from d(2) show "unat (amountB (opAt w i)) \<le> balances w (tokenB (opAt w i)) sender"
    by (simp add: w1_def world_defs)
  from d2(1) show "unat (amountA (opAt w i)) \<le>
       move (tokenB (opAt w i)) sender (creator (opAt w i)) (unat (amountB (opAt w i)))
         (balances w) (tokenA (opAt w i)) (this w)"
    by (simp add: d(3) w1_def world_defs)
  show "this w' = this w" by (simp add: w' w0 d2(2) d(3) w1_def world_defs)
  show "events w' = events w @ [OperationCompleted i sender]"
    by (simp add: w' w0 d2(2) d(3) w1_def world_defs)
  show "balances w' = move (tokenA (opAt w i)) (this w) sender (unat (amountA (opAt w i)))
       (move (tokenB (opAt w i)) sender (creator (opAt w i)) (unat (amountB (opAt w i)))
         (balances w))"
    by (simp add: w' w0 d2(2) d(3) w1_def world_defs)
  show "escrow w' = (escrow w)\<lparr>operations := (operations (escrow w))
       (i := (opAt w i)\<lparr>status := Completed, completer := sender\<rparr>)\<rparr>"
    using ne by (simp add: w' w0 d2(2) d(3) w1_def world_defs)
qed

lemma cancelOperation_InrD:
  assumes "cancelOperation conforming sender i w = Inr w'"
  shows "\<not> entered (escrow w)" "creator (opAt w i) \<noteq> 0" "status (opAt w i) = Active"
    "sender = creator (opAt w i)"
    "unat (amountA (opAt w i)) \<le> balances w (tokenA (opAt w i)) (this w)"
    "this w' = this w" "allowances w' = allowances w"
    "events w' = events w @ [OperationCancelled i]"
    "balances w' = move (tokenA (opAt w i)) (this w) (creator (opAt w i)) (unat (amountA (opAt w i))) (balances w)"
    "escrow w' = (escrow w)\<lparr>operations := (operations (escrow w))(i := (opAt w i)\<lparr>status := Cancelled\<rparr>)\<rparr>"
proof -
  from nonReentrant_InrD [OF assms [unfolded cancelOperation_def]]
  obtain w1 where ne: "\<not> entered (escrow w)" and
    body: "(if creator (opAt (engage w) i) = 0 then Inl (StateError ''Operation does not exist'')
       else if status (opAt (engage w) i) \<noteq> Active then Inl (StateError ''Operation not active'')
       else if sender \<noteq> creator (opAt (engage w) i) then Inl (AuthorizationError ''Only creator can cancel'')
       else
         let w1 = storeOperation i ((opAt (engage w) i)\<lparr>status := Cancelled\<rparr>) (engage w)
         in case safeTransfer conforming (tokenA (opAt w1 i)) (creator (opAt w1 i))
                   (amountA (opAt w1 i)) w1 of
              Inl e \<Rightarrow> Inl e
            | Inr w2 \<Rightarrow> Inr (emit (OperationCancelled i) w2)) = Inr w1" and w': "w' = release w1"
    by blast
  show "\<not> entered (escrow w)" by (rule ne)
  from body show c: "creator (opAt w i) \<noteq> 0" by (simp add: world_defs split: if_splits)
  from body show s: "status (opAt w i) = Active" by (simp add: world_defs split: if_splits)
  from body show a: "sender = creator (opAt w i)" by (simp add: world_defs split: if_splits)
  from body c s a obtain w2 where
    mo: "moveOut (tokenA (opAt w i)) (creator (opAt w i)) (amountA (opAt w i))
          (storeOperation i ((opAt w i)\<lparr>status := Cancelled\<rparr>) (engage w)) = Inr w2"
    and w1: "w1 = emit (OperationCancelled i) w2"
    by (simp add: world_defs conforming_def Let_def split: sum.splits)
  note d = moveOut_InrD [OF mo]
  from d(1) show "unat (amountA (opAt w i)) \<le> balances w (tokenA (opAt w i)) (this w)"
    by (simp add: world_defs)
  show "this w' = this w" by (simp add: w' w1 d(2) world_defs)
  show "allowances w' = allowances w" by (simp add: w' w1 d(2) world_defs)
  show "events w' = events w @ [OperationCancelled i]" by (simp add: w' w1 d(2) world_defs)
  show "balances w' = move (tokenA (opAt w i)) (this w) (creator (opAt w i)) (unat (amountA (opAt w i))) (balances w)"
    by (simp add: w' w1 d(2) world_defs)
  show "escrow w' = (escrow w)\<lparr>operations := (operations (escrow w))(i := (opAt w i)\<lparr>status := Cancelled\<rparr>)\<rparr>"
    using ne by (simp add: w' w1 d(2) world_defs)
qed

section \<open>Invariants of the ledger\<close>

lemma unat_inc: "c \<noteq> - 1 \<Longrightarrow> unat (c + 1) = Suc (unat c)" for c :: uint256
proof -
  assume "c \<noteq> - 1"
  then have "c + 1 \<noteq> 0" using max_word_wrap by blast
  then have "1 + c \<noteq> 0" by (simp add: add.commute)
  from unatSuc [OF this] show ?thesis by (simp add: add.commute)
qed

lemma less_inc_iff: "c \<noteq> - 1 \<Longrightarrow> j < c + 1 \<longleftrightarrow> j < c \<or> j = c" for c :: uint256
  by (auto simp add: word_less_nat_alt unat_inc word_unat_eq_iff)

lemma map_sum_InrD: "map_sum id (Pair []) x = Inr (r, w') \<Longrightarrow> r = [] \<and> x = Inr w'"
  by (cases x) simp_all

lemma invoke_InrD:
  assumes "invoke P sender c w = Inr (r, w')"
  shows "r = []"
    "(case c of AddToken token \<Rightarrow> addToken sender token w
      | CreateOperation tA tB aA aB \<Rightarrow> createOperation P sender tA tB aA aB w
      | CompleteOperation i \<Rightarrow> completeOperation P sender i w
      | CancelOperation i \<Rightarrow> cancelOperation P sender i w) = Inr w'"
proof -
  from assms have "r = [] \<and>
    (case c of AddToken token \<Rightarrow> addToken sender token w
      | CreateOperation tA tB aA aB \<Rightarrow> createOperation P sender tA tB aA aB w
      | CompleteOperation i \<Rightarrow> completeOperation P sender i w
      | CancelOperation i \<Rightarrow> cancelOperation P sender i w) = Inr w'"
    by (cases c) (auto dest!: map_sum_InrD)
  then show "r = []"
    "(case c of AddToken token \<Rightarrow> addToken sender token w
      | CreateOperation tA tB aA aB \<Rightarrow> createOperation P sender tA tB aA aB w
      | CompleteOperation i \<Rightarrow> completeOperation P sender i w
      | CancelOperation i \<Rightarrow> cancelOperation P sender i w) = Inr w'"
    by simp_all
qed

lemma stable_deploy: "stable (deploy sender addr bal alw)"
  by (simp add: stable_def deploy_def constructor_def opAt_def zeroOperation_def)

lemma stable_addToken:
  assumes "stable w" "addToken sender token w = Inr w'"
  shows "stable w'"
  using assms(1) unfolding addToken_InrD(4) [OF assms(2)]
  by (simp add: stable_def world_defs)

lemma stable_create:
  assumes "stable w" "createOperation conforming sender tA tB aA aB w = Inr w'"
  shows "stable w'"
proof -
  note d = createOperation_InrD [OF assms(2)]
  show ?thesis
    using assms(1) d(9)
    by (auto simp add: stable_def opAt_def d(13) less_inc_iff)
qed

lemma stable_complete:
  assumes "stable w" "completeOperation conforming sender i w = Inr w'"
  shows "stable w'"
proof -
  note d = completeOperation_InrD [OF assms(2)]
  show ?thesis
    using assms(1) d(2)
    by (auto simp add: stable_def opAt_def d(11))
qed

lemma stable_cancel:
  assumes "stable w" "cancelOperation conforming sender i w = Inr w'"
  shows "stable w'"
proof -
  note d = cancelOperation_InrD [OF assms(2)]
  show ?thesis
    using assms(1) d(2)
    by (auto simp add: stable_def opAt_def d(10))
qed

lemma stable_invoke:
  assumes "stable w" "invoke conforming sender c w = Inr (r, w')"
  shows "stable w'"
  using invoke_InrD(2) [OF assms(2)]
  by (cases c)
     (auto dest: stable_addToken [OF assms(1)] stable_create [OF assms(1)]
        stable_complete [OF assms(1)] stable_cancel [OF assms(1)])

section \<open>One terminal transition\<close>

lemma reachable_stable: "reachable w \<Longrightarrow> stable w"
  by (induction rule: reachable.induct) (auto intro: stable_deploy stable_invoke)

lemma not_active_fails:
  assumes "stable w" "status (opAt w i) \<noteq> Active"
  shows "completeOperation P sender i w = Inl (StateError ''Operation not active'')"
    "cancelOperation P sender i w = Inl (StateError ''Operation not active'')"
proof -
  from assms have "\<not> entered (escrow w)" "creator (opAt w i) \<noteq> 0"
    by (simp_all add: stable_def)
  with assms(2) show "completeOperation P sender i w = Inl (StateError ''Operation not active'')"
    "cancelOperation P sender i w = Inl (StateError ''Operation not active'')"
    by (simp_all add: completeOperation_def cancelOperation_def nonReentrant_def world_defs)
qed

lemma status_kept:
  assumes "stable w" "status (opAt w i) \<noteq> Active" "invoke conforming sender c w = Inr (r, w')"
  shows "status (opAt w' i) = status (opAt w i)"
proof (cases c)
  case (AddToken token)
  with invoke_InrD(2) [OF assms(3)] have "addToken sender token w = Inr w'" by simp
  from addToken_InrD(4) [OF this] show ?thesis by (simp add: world_defs)
next
  case (CreateOperation tA tB aA aB)
  with invoke_InrD(2) [OF assms(3)] have "createOperation conforming sender tA tB aA aB w = Inr w'"
    by simp
  note d = createOperation_InrD [OF this]
  from assms(1,2) have "i < operationCounter (escrow w)" by (simp add: stable_def)
  then have "i \<noteq> operationCounter (escrow w)" by simp
  then show ?thesis by (simp add: opAt_def d(13))
next
  case (CompleteOperation j)
  with invoke_InrD(2) [OF assms(3)] have "completeOperation conforming sender j w = Inr w'" by simp
  note d = completeOperation_InrD [OF this]
  from d(3) assms(2) have "i \<noteq> j" by auto
  then show ?thesis by (simp add: opAt_def d(11))
next
  case (CancelOperation j)
  with invoke_InrD(2) [OF assms(3)] have "cancelOperation conforming sender j w = Inr w'" by simp
  note d = cancelOperation_InrD [OF this]
  from d(3) assms(2) have "i \<noteq> j" by auto
  then show ?thesis by (simp add: opAt_def d(10))
qed

lemma terminal_leaves_Active:
  assumes "invoke conforming sender c w = Inr (r, w')" "terminal i (sender, c)"
  shows "status (opAt w i) = Active \<and> status (opAt w' i) \<noteq> Active"
proof (cases c)
  case (CompleteOperation j)
  with assms(2) have j: "j = i" by simp
  from invoke_InrD(2) [OF assms(1)] CompleteOperation j
  have "completeOperation conforming sender i w = Inr w'" by simp
  note d = completeOperation_InrD [OF this]
  show ?thesis by (simp add: d(3)) (simp add: opAt_def d(11))
next
  case (CancelOperation j)
  with assms(2) have j: "j = i" by simp
  from invoke_InrD(2) [OF assms(1)] CancelOperation j
  have "cancelOperation conforming sender i w = Inr w'" by simp
  note d = cancelOperation_InrD [OF this]
  show ?thesis by (simp add: d(3)) (simp add: opAt_def d(10))
qed (use assms(2) in simp_all)

lemma terminal_count:
  "stable w \<Longrightarrow>
   length (filter (terminal i) (successful cs w)) \<le> (if status (opAt w i) = Active then 1 else 0)"
proof (induction cs arbitrary: w)
  case Nil
  then show ?case by simp
next
  case (Cons a cs)
  obtain sender c where a: "a = (sender, c)" by (cases a)
  show ?case
  proof (cases "invoke conforming sender c w")
    case (Inl e)
    with Cons a show ?thesis by simp
  next
    case (Inr p)
    obtain r w' where p: "p = (r, w')" by (cases p)
    from Inr p have inv: "invoke conforming sender c w = Inr (r, w')" by simp
    have st: "stable w'" by (rule stable_invoke [OF Cons.prems inv])
    note IH = Cons.IH [OF st]
    have succ: "successful (a # cs) w = (sender, c) # successful cs w'"
      by (simp add: a inv)
    show ?thesis
    proof (cases "terminal i (sender, c)")
      case True
      from terminal_leaves_Active [OF inv True] IH show ?thesis
        by (simp add: succ True)
    next
      case False
      show ?thesis
      proof (cases "status (opAt w i) = Active")
        case True
        with IH False show ?thesis by (simp add: succ split: if_splits)
      next
        case na: False
        from status_kept [OF Cons.prems na inv] na IH False show ?thesis
          by (simp add: succ)
      qed
    qed
  qed
qed

lemma run_stable: "stable w \<Longrightarrow> stable (run cs w)"
proof (induction cs arbitrary: w)
  case Nil
  then show ?case by simp
next
  case (Cons a cs)
  obtain sender c where a: "a = (sender, c)" by (cases a)
  show ?case
  proof (cases "invoke conforming sender c w")
    case (Inl e)
    with Cons a show ?thesis by simp
  next
    case (Inr p)
    obtain r w' where p: "p = (r, w')" by (cases p)
    from Inr p have inv: "invoke conforming sender c w = Inr (r, w')" by simp
    from Cons.IH [OF stable_invoke [OF Cons.prems inv]] show ?thesis
      by (simp add: a inv)
  qed
qed

lemma run_status_kept:
  "stable w \<Longrightarrow> status (opAt w i) \<noteq> Active \<Longrightarrow> status (opAt (run cs w) i) = status (opAt w i)"
proof (induction cs arbitrary: w)
  case Nil
  then show ?case by simp
next
  case (Cons a cs)
  obtain sender c where a: "a = (sender, c)" by (cases a)
  show ?case
  proof (cases "invoke conforming sender c w")
    case (Inl e)
    with Cons a show ?thesis by simp
  next
    case (Inr p)
    obtain r w' where p: "p = (r, w')" by (cases p)
    from Inr p have inv: "invoke conforming sender c w = Inr (r, w')" by simp
    have st: "stable w'" by (rule stable_invoke [OF Cons.prems(1) inv])
    have k: "status (opAt w' i) = status (opAt w i)"
      by (rule status_kept [OF Cons.prems(1,2) inv])
    with Cons.prems(2) have "status (opAt w' i) \<noteq> Active" by simp
    from Cons.IH [OF st this] k show ?thesis
      by (simp add: a inv)
  qed
qed

text \<open>
  C3. From any reachable state and over any sequence of calls by any callers, at most
  one call among \<open>completeOperation(i)\<close> and \<open>cancelOperation(i)\<close> succeeds; and once a
  sequence has left operation \<open>i\<close> \<open>Completed\<close> or \<open>Cancelled\<close>, then after any
  further calls a \<open>completeOperation(i)\<close> or \<open>cancelOperation(i)\<close> by any caller
  fails with the StateError "Operation not active".
\<close>

theorem single_terminal_transition:
  assumes "reachable w"
  shows "length (filter (terminal i) (successful cs w)) \<le> 1 \<and>
    (status (opAt (run cs w) i) \<noteq> Active \<longrightarrow>
       completeOperation P sender i (run cs' (run cs w)) = Inl (StateError ''Operation not active'') \<and>
       cancelOperation P sender i (run cs' (run cs w)) = Inl (StateError ''Operation not active''))"
proof -
  have st: "stable w" by (rule reachable_stable [OF assms])
  have "length (filter (terminal i) (successful cs w)) \<le> 1"
    using terminal_count [OF st, of i cs] by (simp split: if_splits)
  moreover have "completeOperation P sender i (run cs' (run cs w)) = Inl (StateError ''Operation not active'') \<and>
       cancelOperation P sender i (run cs' (run cs w)) = Inl (StateError ''Operation not active'')"
    if na: "status (opAt (run cs w) i) \<noteq> Active"
  proof -
    have s1: "stable (run cs w)" by (rule run_stable [OF st])
    have s2: "stable (run cs' (run cs w))" by (rule run_stable [OF s1])
    have "status (opAt (run cs' (run cs w)) i) \<noteq> Active"
      using run_status_kept [OF s1 na, of cs'] na by simp
    from not_active_fails [OF s2 this] show ?thesis by simp
  qed
  ultimately show ?thesis by blast
qed

lemma demo4_cancel: "cancelOperation conforming 2 0 demo4 = Inl (StateError ''Operation not active'')"
  by (simp add: demo_defs eval_defs)

theorem single_terminal_transition_witness:
  "reachable demo3 \<and>
   status (opAt (run [(3, CompleteOperation 0)] demo3) 0) \<noteq> Active \<and>
   length (filter (terminal 0)
     (successful [(3, CompleteOperation 0), (2, CancelOperation 0), (3, CompleteOperation 0)] demo3)) \<le> 1 \<and>
   completeOperation conforming 3 0 (run [(2, CancelOperation 0)] (run [(3, CompleteOperation 0)] demo3))
     = Inl (StateError ''Operation not active'') \<and>
   cancelOperation conforming 2 0 (run [(2, CancelOperation 0)] (run [(3, CompleteOperation 0)] demo3))
     = Inl (StateError ''Operation not active'')"
  using single_terminal_transition [OF reachable_demo3, of 0
      "[(3, CompleteOperation 0), (2, CancelOperation 0), (3, CompleteOperation 0)]"]
    single_terminal_transition [OF reachable_demo3, of 0 "[(3, CompleteOperation 0)]" conforming 3
      "[(2, CancelOperation 0)]"]
    single_terminal_transition [OF reachable_demo3, of 0 "[(3, CompleteOperation 0)]" conforming 2
      "[(2, CancelOperation 0)]"]
  by (simp add: reachable_demo3 demo4_eq demo4_op demo4_cancel)

section \<open>Reentrancy\<close>

lemma nested_rejected:
  "entered (escrow w) \<Longrightarrow> guarded c \<Longrightarrow>
   settle w (map_sum id snd (invoke conforming attacker c w)) = w"
  by (cases c)
     (simp_all add: createOperation_def completeOperation_def cancelOperation_def
        nonReentrant_entered)

lemma reentering_engaged:
  assumes "entered (escrow w)" "guarded c"
  shows "safeTransferFrom (reentering attacker c) token from to v w = moveIn token from to v w"
    "safeTransfer (reentering attacker c) token to v w = moveOut token to v w"
  by (simp_all add: reentering_def nested_rejected [OF assms])

lemma reentering_create:
  assumes "guarded c"
  shows "createOperation (reentering attacker c) sender tA tB aA aB w =
    createOperation conforming sender tA tB aA aB w"
  by (simp add: createOperation_def nonReentrant_def reentering_engaged [OF _ assms]
      conforming_def engage_def)

lemma reentering_cancel:
  assumes "guarded c"
  shows "cancelOperation (reentering attacker c) sender i w = cancelOperation conforming sender i w"
  by (simp add: cancelOperation_def nonReentrant_def reentering_engaged [OF _ assms]
      conforming_def world_defs Let_def)

lemma reentering_complete:
  assumes "guarded c"
  shows "completeOperation (reentering attacker c) sender i w =
    completeOperation conforming sender i w"
proof -
  define w1 where "w1 = storeOperation i ((opAt (engage w) i)\<lparr>status := Completed, completer := sender\<rparr>) (engage w)"
  have e1: "entered (escrow w1)" by (simp add: w1_def world_defs)
  have first: "safeTransferFrom (reentering attacker c) token from to v w1 = moveIn token from to v w1"
    for token "from" to v
    by (rule reentering_engaged(1) [OF e1 assms])
  have second: "safeTransfer (reentering attacker c) token to v w2 = moveOut token to v w2"
    if "moveIn t f x n w1 = Inr w2" for token to v w2 t f x n
  proof -
    from moveIn_InrD(3) [OF that] e1 have "entered (escrow w2)" by simp
    from reentering_engaged(2) [OF this assms] show ?thesis .
  qed
  have body: "(case safeTransferFrom (reentering attacker c) (tokenB (opAt w1 i)) sender (creator (opAt w1 i))
                   (amountB (opAt w1 i)) w1 of
              Inl e \<Rightarrow> Inl e
            | Inr w2 \<Rightarrow>
                (case safeTransfer (reentering attacker c) (tokenA (opAt w2 i)) sender (amountA (opAt w2 i)) w2 of
                   Inl e \<Rightarrow> Inl e
                 | Inr w3 \<Rightarrow> Inr (emit (OperationCompleted i sender) w3)))
      = (case safeTransferFrom conforming (tokenB (opAt w1 i)) sender (creator (opAt w1 i))
                   (amountB (opAt w1 i)) w1 of
              Inl e \<Rightarrow> Inl e
            | Inr w2 \<Rightarrow>
                (case safeTransfer conforming (tokenA (opAt w2 i)) sender (amountA (opAt w2 i)) w2 of
                   Inl e \<Rightarrow> Inl e
                 | Inr w3 \<Rightarrow> Inr (emit (OperationCompleted i sender) w3)))"
    unfolding first
    by (cases "moveIn (tokenB (opAt w1 i)) sender (creator (opAt w1 i)) (amountB (opAt w1 i)) w1")
       (simp_all add: conforming_def second)
  show ?thesis
    unfolding completeOperation_def nonReentrant_def Let_def w1_def [symmetric] body ..
qed

lemma reentering_invoke:
  "guarded c \<Longrightarrow> invoke (reentering attacker c) sender d w = invoke conforming sender d w"
  by (cases d) (simp_all add: reentering_create reentering_complete reentering_cancel)


text \<open>
  C5, as the code has it. Each of \<open>createOperation\<close>, \<open>completeOperation\<close> and
  \<open>cancelOperation\<close> fails at once with the ReentrancyError when the guard is engaged and
  leaves the state as it was; the transfers inside them run under the engaged guard, so
  an asset that calls back into any of the three during a transfer changes nothing of
  the outer call. \<open>addToken\<close> is gated by ownership only and never answers with the
  ReentrancyError.
\<close>

theorem reentrancy_rejection:
  "(entered (escrow w) \<longrightarrow>
      createOperation P sender tA tB aA aB w = Inl ReentrancyError \<and>
      completeOperation P sender i w = Inl ReentrancyError \<and>
      cancelOperation P sender i w = Inl ReentrancyError \<and>
      settle w (createOperation P sender tA tB aA aB w) = w \<and>
      settle w (completeOperation P sender i w) = w \<and>
      settle w (cancelOperation P sender i w) = w) \<and>
   (guarded c \<longrightarrow> invoke (reentering attacker c) sender d w = invoke conforming sender d w) \<and>
   addToken sender token w \<noteq> Inl ReentrancyError"
proof -
  have "addToken sender token w \<noteq> Inl ReentrancyError"
    by (simp add: addToken_def onlyOwner_def)
  then show ?thesis
    by (simp add: createOperation_def completeOperation_def cancelOperation_def
        nonReentrant_entered reentering_invoke)
qed

lemma demo3_engaged: "entered (escrow (engage demo3))"
  by (simp add: engage_def)

theorem reentrancy_rejection_witness:
  "entered (escrow (engage demo3)) \<and> guarded (CompleteOperation 0) \<and>
   completeOperation conforming 3 0 (engage demo3) = Inl ReentrancyError \<and>
   invoke (reentering 3 (CompleteOperation 0)) 3 (CompleteOperation 0) demo3 = Inr ([], demo4)"
  using reentrancy_rejection [of "engage demo3" conforming 3 10 11 1 1 0 "CompleteOperation 0"]
    reentrancy_rejection [of demo3 conforming 3 10 11 1 1 0 "CompleteOperation 0" 3
      "CompleteOperation 0"]
  by (simp add: demo3_engaged demo4_eq)

text \<open>
  C5 as stated fails for \<open>addToken\<close>: called by the owner while the guard is engaged it
  succeeds, and an asset that calls it from inside a transfer of \<open>completeOperation\<close>
  gets asset 12 allowlisted.
\<close>

theorem addToken_unguarded_counterexample:
  "entered (escrow (engage demo3)) \<and>
   addToken 1 12 (engage demo3) \<noteq> Inl ReentrancyError \<and>
   \<not> allowedTokens (escrow (engage demo3)) 12 \<and>
   allowedTokens (escrow (settle (engage demo3) (addToken 1 12 (engage demo3)))) 12 \<and>
   allowedTokens (escrow (settle demo3
     (completeOperation (reentering 1 (AddToken 12)) 3 0 demo3))) 12"
  by (simp add: reentering_def demo_defs eval_defs)

section \<open>Authorization and validation\<close>

text \<open>
  C4. For an existing \<open>Active\<close> operation of a ledger whose guard is free (a call from
  outside), \<open>completeOperation\<close> by the creator fails with the AuthorizationError
  and \<open>cancelOperation\<close> by anyone else fails with the AuthorizationError; both leave the
  state unchanged, whatever the asset would do.
\<close>

theorem authorization:
  assumes "\<not> entered (escrow w)" "creator (opAt w i) \<noteq> 0" "status (opAt w i) = Active"
  shows "completeOperation P (creator (opAt w i)) i w =
      Inl (AuthorizationError ''Creator cannot complete own operation'') \<and>
    settle w (completeOperation P (creator (opAt w i)) i w) = w \<and>
    (sender \<noteq> creator (opAt w i) \<longrightarrow>
       cancelOperation P sender i w = Inl (AuthorizationError ''Only creator can cancel'') \<and>
       settle w (cancelOperation P sender i w) = w)"
  using assms by (simp add: completeOperation_def cancelOperation_def nonReentrant_def world_defs)

theorem authorization_witness:
  "\<not> entered (escrow demo3) \<and> creator (opAt demo3 0) = 2 \<and> status (opAt demo3 0) = Active \<and>
   completeOperation conforming 2 0 demo3 =
     Inl (AuthorizationError ''Creator cannot complete own operation'') \<and>
   cancelOperation conforming 3 0 demo3 = Inl (AuthorizationError ''Only creator can cancel'')"
  using authorization [of demo3 0 conforming 3]
  by (simp add: demo3_free demo3_op)

lemma createOperation_invalid:
  assumes "\<not> entered (escrow w)"
    and "\<not> allowedTokens (escrow w) tA \<or> \<not> allowedTokens (escrow w) tB \<or> tA = tB \<or> aA = 0 \<or> aB = 0"
  shows "createOperation P sender tA tB aA aB w = Inl (ValidationError
      (if \<not> allowedTokens (escrow w) tA then ''TokenA not allowed''
       else if \<not> allowedTokens (escrow w) tB then ''TokenB not allowed''
       else if tA = tB then ''Tokens must be different''
       else if aA = 0 then ''AmountA must be greater than 0''
       else ''AmountB must be greater than 0''))"
  using assms(2,1) by (elim disjE; simp add: createOperation_def nonReentrant_def world_defs)

text \<open>
  C7. On a ledger whose guard is free, if \<open>tokenA\<close> or \<open>tokenB\<close> is not allowlisted, or
  they are equal, or \<open>amountA\<close> or \<open>amountB\<close> is zero, \<open>createOperation\<close> fails with a
  ValidationError that is the same whatever the asset would do (no transfer is
  attempted), and the state, with its records and counter, is unchanged.
\<close>

theorem createOperation_validation:
  assumes "\<not> entered (escrow w)"
    and "\<not> allowedTokens (escrow w) tA \<or> \<not> allowedTokens (escrow w) tB \<or> tA = tB \<or> aA = 0 \<or> aB = 0"
  shows "\<exists>msg. \<forall>P. createOperation P sender tA tB aA aB w = Inl (ValidationError msg) \<and>
           settle w (createOperation P sender tA tB aA aB w) = w"
  using createOperation_invalid [OF assms] by (metis settle_Inl)

lemma demo3_allowed: "allowedTokens (escrow demo3) t \<longleftrightarrow> t = 10 \<or> t = 11"
  by (auto simp add: demo_defs eval_defs)

theorem createOperation_validation_witness:
  "\<not> entered (escrow demo3) \<and> \<not> allowedTokens (escrow demo3) 12 \<and>
   (\<exists>msg. \<forall>P. createOperation P 2 12 11 100 50 demo3 = Inl (ValidationError msg) \<and>
       settle demo3 (createOperation P 2 12 11 100 50 demo3) = demo3)"
  using createOperation_validation [of demo3 12 11 100 50 2]
  by (simp add: demo3_free demo3_allowed)

section \<open>Allocation, frame and round trip\<close>

lemma demo5_eq: "cancelOperation conforming 2 0 demo3 = Inr demo5"
  by (simp add: demo5_def demo_defs eval_defs)

text \<open>
  C6, as the code has it. A successful \<open>createOperation\<close> stores the new \<open>Active\<close>
  record under the id equal to the counter's value, a counter that starts at 0 and
  grows by exactly one (it cannot wrap: the call panics instead); it appends the id to
  the index and reports it in the \<open>OperationCreated\<close> event. The call hands back no
  return data.
\<close>

theorem createOperation_allocates_id:
  assumes "createOperation conforming sender tA tB aA aB w = Inr w'"
  shows "opAt w' (operationCounter (escrow w)) =
      \<lparr>op_id = operationCounter (escrow w), creator = sender, tokenA = tA, tokenB = tB,
       amountA = aA, amountB = aB, status = Active, completer = 0\<rparr> \<and>
    operationIds (escrow w') = operationIds (escrow w) @ [operationCounter (escrow w)] \<and>
    operationCounter (escrow w') = operationCounter (escrow w) + 1 \<and>
    unat (operationCounter (escrow w')) = Suc (unat (operationCounter (escrow w))) \<and>
    events w' = events w @ [OperationCreated (operationCounter (escrow w)) sender tA tB aA aB] \<and>
    invoke conforming sender (CreateOperation tA tB aA aB) w = Inr ([], w') \<and>
    operationCounter (constructor deployer) = 0"
proof -
  note d = createOperation_InrD [OF assms]
  show ?thesis
    by (simp add: opAt_def d(13) d(12) unat_inc [OF d(9)] assms constructor_def)
qed

theorem createOperation_allocates_id_witness:
  "createOperation conforming 2 10 11 100 50 demo2 = Inr demo3 \<and>
   operationCounter (escrow demo2) = 0 \<and> op_id (opAt demo3 0) = 0 \<and>
   operationIds (escrow demo3) = operationIds (escrow demo2) @ [0] \<and>
   operationCounter (escrow demo3) = 1 \<and>
   events demo3 = events demo2 @ [OperationCreated 0 2 10 11 100 50]"
proof -
  have c: "operationCounter (escrow demo2) = 0" by (simp add: demo_defs eval_defs)
  from createOperation_allocates_id [OF demo3_eq] show ?thesis
    by (simp add: c demo3_eq)
qed

text \<open>
  C6 as stated fails in its last part: the call that creates operation 0 returns no
  word at all, so not the new id.
\<close>

theorem createOperation_returns_nothing_counterexample:
  "map_sum id fst (invoke conforming 2 (CreateOperation 10 11 100 50) demo2) = Inr [] \<and>
   map_sum id fst (invoke conforming 2 (CreateOperation 10 11 100 50) demo2)
     \<noteq> Inr [getOperationCount demo2] \<and>
   op_id (opAt demo3 0) = getOperationCount demo2"
proof -
  have c: "getOperationCount demo2 = 0" by (simp add: getOperationCount_def demo_defs eval_defs)
  show ?thesis by (simp add: demo3_eq demo3_op c)
qed

lemma same_records_trans: "same_records a b \<Longrightarrow> same_records b c \<Longrightarrow> same_records a c"
  by (simp add: same_records_def)

lemma moveIn_same_records: "moveIn token from to v w = Inr w' \<Longrightarrow> same_records w' w"
  by (drule moveIn_InrD(3)) (simp add: same_records_def)

lemma moveOut_same_records: "moveOut token to v w = Inr w' \<Longrightarrow> same_records w' w"
  by (drule moveOut_InrD(2)) (simp add: same_records_def)

lemma nested_same_records:
  assumes "entered (escrow w)"
  shows "same_records (settle w (map_sum id snd (invoke conforming attacker c w))) w"
proof (cases "guarded c")
  case True
  from nested_rejected [OF assms True, of attacker] show ?thesis
    by (simp add: same_records_def)
next
  case False
  then obtain token where c: "c = AddToken token" by (cases c) simp_all
  show ?thesis
  proof (cases "addToken attacker token w")
    case (Inl e)
    then show ?thesis by (simp add: c same_records_def)
  next
    case (Inr x)
    from addToken_InrD(4) [OF Inr] show ?thesis
      by (simp add: c Inr same_records_def world_defs)
  qed
qed

lemma reentering_same_records:
  assumes "entered (escrow w)"
  shows "safeTransferFrom (reentering attacker c) token from to v w = Inr w' \<Longrightarrow> same_records w' w"
    and "safeTransfer (reentering attacker c) token to v w = Inr w' \<Longrightarrow> same_records w' w"
proof -
  note n = nested_same_records [OF assms, of attacker c]
  show "safeTransferFrom (reentering attacker c) token from to v w = Inr w' \<Longrightarrow> same_records w' w"
    by (simp add: reentering_def) (blast intro: same_records_trans [OF _ n] dest: moveIn_same_records)
  show "safeTransfer (reentering attacker c) token to v w = Inr w' \<Longrightarrow> same_records w' w"
    by (simp add: reentering_def) (blast intro: same_records_trans [OF _ n] dest: moveOut_same_records)
qed

lemma reentering_complete_records:
  assumes "completeOperation (reentering attacker c) sender i w = Inr w'"
  shows "operations (escrow w') = (operations (escrow w))
           (i := (opAt w i)\<lparr>status := Completed, completer := sender\<rparr>)"
    "operationIds (escrow w') = operationIds (escrow w)"
    "operationCounter (escrow w') = operationCounter (escrow w)"
proof -
  let ?P = "reentering attacker c"
  from nonReentrant_InrD [OF assms [unfolded completeOperation_def]]
  obtain w0 where
    body: "(if creator (opAt (engage w) i) = 0 then Inl (StateError ''Operation does not exist'')
       else if status (opAt (engage w) i) \<noteq> Active then Inl (StateError ''Operation not active'')
       else if sender = creator (opAt (engage w) i)
         then Inl (AuthorizationError ''Creator cannot complete own operation'')
       else
         let w1 = storeOperation i ((opAt (engage w) i)\<lparr>status := Completed, completer := sender\<rparr>) (engage w)
         in case safeTransferFrom ?P (tokenB (opAt w1 i)) sender (creator (opAt w1 i))
                   (amountB (opAt w1 i)) w1 of
              Inl e \<Rightarrow> Inl e
            | Inr w2 \<Rightarrow>
                (case safeTransfer ?P (tokenA (opAt w2 i)) sender (amountA (opAt w2 i)) w2 of
                   Inl e \<Rightarrow> Inl e
                 | Inr w3 \<Rightarrow> Inr (emit (OperationCompleted i sender) w3))) = Inr w0"
    and w': "w' = release w0"
    by blast
  define w1 where "w1 = storeOperation i ((opAt (engage w) i)\<lparr>status := Completed, completer := sender\<rparr>) (engage w)"
  have e1: "entered (escrow w1)" by (simp add: w1_def world_defs)
  from body obtain w2 w3 where
    t1: "safeTransferFrom ?P (tokenB (opAt w1 i)) sender (creator (opAt w1 i)) (amountB (opAt w1 i)) w1 = Inr w2"
    and t2: "safeTransfer ?P (tokenA (opAt w2 i)) sender (amountA (opAt w2 i)) w2 = Inr w3"
    and w0: "w0 = emit (OperationCompleted i sender) w3"
    unfolding Let_def w1_def [symmetric]
    by (auto split: if_splits sum.splits)
  have s2: "same_records w2 w1" by (rule reentering_same_records(1) [OF e1 t1])
  then have e2: "entered (escrow w2)" using e1 by (simp add: same_records_def)
  have s3: "same_records w3 w2" by (rule reentering_same_records(2) [OF e2 t2])
  have s: "same_records w3 w1" by (rule same_records_trans [OF s3 s2])
  from s show "operations (escrow w') = (operations (escrow w))
           (i := (opAt w i)\<lparr>status := Completed, completer := sender\<rparr>)"
    by (simp add: w' w0 same_records_def w1_def world_defs)
  from s show "operationIds (escrow w') = operationIds (escrow w)"
    by (simp add: w' w0 same_records_def w1_def world_defs)
  from s show "operationCounter (escrow w') = operationCounter (escrow w)"
    by (simp add: w' w0 same_records_def w1_def world_defs)
qed

lemma reentering_cancel_records:
  assumes "cancelOperation (reentering attacker c) sender i w = Inr w'"
  shows "operations (escrow w') = (operations (escrow w))(i := (opAt w i)\<lparr>status := Cancelled\<rparr>)"
    "operationIds (escrow w') = operationIds (escrow w)"
    "operationCounter (escrow w') = operationCounter (escrow w)"
proof -
  let ?P = "reentering attacker c"
  from nonReentrant_InrD [OF assms [unfolded cancelOperation_def]]
  obtain w0 where
    body: "(if creator (opAt (engage w) i) = 0 then Inl (StateError ''Operation does not exist'')
       else if status (opAt (engage w) i) \<noteq> Active then Inl (StateError ''Operation not active'')
       else if sender \<noteq> creator (opAt (engage w) i) then Inl (AuthorizationError ''Only creator can cancel'')
       else
         let w1 = storeOperation i ((opAt (engage w) i)\<lparr>status := Cancelled\<rparr>) (engage w)
         in case safeTransfer ?P (tokenA (opAt w1 i)) (creator (opAt w1 i))
                   (amountA (opAt w1 i)) w1 of
              Inl e \<Rightarrow> Inl e
            | Inr w2 \<Rightarrow> Inr (emit (OperationCancelled i) w2)) = Inr w0"
    and w': "w' = release w0"
    by blast
  define w1 where "w1 = storeOperation i ((opAt (engage w) i)\<lparr>status := Cancelled\<rparr>) (engage w)"
  have e1: "entered (escrow w1)" by (simp add: w1_def world_defs)
  from body obtain w2 where
    t1: "safeTransfer ?P (tokenA (opAt w1 i)) (creator (opAt w1 i)) (amountA (opAt w1 i)) w1 = Inr w2"
    and w0: "w0 = emit (OperationCancelled i) w2"
    unfolding Let_def w1_def [symmetric]
    by (auto split: if_splits sum.splits)
  have s: "same_records w2 w1" by (rule reentering_same_records(2) [OF e1 t1])
  from s show "operations (escrow w') = (operations (escrow w))(i := (opAt w i)\<lparr>status := Cancelled\<rparr>)"
    by (simp add: w' w0 same_records_def w1_def world_defs)
  from s show "operationIds (escrow w') = operationIds (escrow w)"
    by (simp add: w' w0 same_records_def w1_def world_defs)
  from s show "operationCounter (escrow w') = operationCounter (escrow w)"
    by (simp add: w' w0 same_records_def w1_def world_defs)
qed

lemma nested_quiet:
  assumes "entered (escrow w)" "guarded c \<or> attacker \<noteq> owner (escrow w)"
  shows "settle w (map_sum id snd (invoke conforming attacker c w)) = w"
proof (cases "guarded c")
  case True
  then show ?thesis by (rule nested_rejected [OF assms(1)])
next
  case False
  then obtain token where c: "c = AddToken token" by (cases c) simp_all
  from False assms(2) have "owner (escrow w) \<noteq> attacker" by auto
  then show ?thesis by (simp add: c addToken_def onlyOwner_def)
qed

lemma reentering_quiet:
  assumes "entered (escrow w)" "guarded c \<or> attacker \<noteq> owner (escrow w)"
  shows "safeTransferFrom (reentering attacker c) token from to v w = moveIn token from to v w"
    "safeTransfer (reentering attacker c) token to v w = moveOut token to v w"
  by (simp_all add: reentering_def nested_quiet [OF assms])

lemma quiet_cancel:
  assumes "guarded c \<or> attacker \<noteq> owner (escrow w)"
  shows "cancelOperation (reentering attacker c) sender i w = cancelOperation conforming sender i w"
proof -
  define w1 where "w1 = storeOperation i ((opAt (engage w) i)\<lparr>status := Cancelled\<rparr>) (engage w)"
  have e1: "entered (escrow w1)" by (simp add: w1_def world_defs)
  have o1: "guarded c \<or> attacker \<noteq> owner (escrow w1)" using assms by (simp add: w1_def world_defs)
  have body: "safeTransfer (reentering attacker c) token to v w1 = safeTransfer conforming token to v w1"
    for token to v
    by (simp add: reentering_quiet(2) [OF e1 o1] conforming_def)
  show ?thesis
    unfolding cancelOperation_def nonReentrant_def Let_def w1_def [symmetric] body ..
qed

lemma quiet_complete:
  assumes "guarded c \<or> attacker \<noteq> owner (escrow w)"
  shows "completeOperation (reentering attacker c) sender i w =
    completeOperation conforming sender i w"
proof -
  define w1 where "w1 = storeOperation i ((opAt (engage w) i)\<lparr>status := Completed, completer := sender\<rparr>) (engage w)"
  have e1: "entered (escrow w1)" by (simp add: w1_def world_defs)
  have o1: "guarded c \<or> attacker \<noteq> owner (escrow w1)" using assms by (simp add: w1_def world_defs)
  have first: "safeTransferFrom (reentering attacker c) token from to v w1 = moveIn token from to v w1"
    for token "from" to v
    by (rule reentering_quiet(1) [OF e1 o1])
  have second: "safeTransfer (reentering attacker c) token to v w2 = moveOut token to v w2"
    if "moveIn t f x n w1 = Inr w2" for token to v w2 t f x n
  proof -
    from moveIn_InrD(3) [OF that] e1 o1
    have "entered (escrow w2)" "guarded c \<or> attacker \<noteq> owner (escrow w2)" by simp_all
    from reentering_quiet(2) [OF this] show ?thesis .
  qed
  have body: "(case safeTransferFrom (reentering attacker c) (tokenB (opAt w1 i)) sender (creator (opAt w1 i))
                   (amountB (opAt w1 i)) w1 of
              Inl e \<Rightarrow> Inl e
            | Inr w2 \<Rightarrow>
                (case safeTransfer (reentering attacker c) (tokenA (opAt w2 i)) sender (amountA (opAt w2 i)) w2 of
                   Inl e \<Rightarrow> Inl e
                 | Inr w3 \<Rightarrow> Inr (emit (OperationCompleted i sender) w3)))
      = (case safeTransferFrom conforming (tokenB (opAt w1 i)) sender (creator (opAt w1 i))
                   (amountB (opAt w1 i)) w1 of
              Inl e \<Rightarrow> Inl e
            | Inr w2 \<Rightarrow>
                (case safeTransfer conforming (tokenA (opAt w2 i)) sender (amountA (opAt w2 i)) w2 of
                   Inl e \<Rightarrow> Inl e
                 | Inr w3 \<Rightarrow> Inr (emit (OperationCompleted i sender) w3)))"
    unfolding first
    by (cases "moveIn (tokenB (opAt w1 i)) sender (creator (opAt w1 i)) (amountB (opAt w1 i)) w1")
       (simp_all add: conforming_def second)
  show ?thesis
    unfolding completeOperation_def nonReentrant_def Let_def w1_def [symmetric] body ..
qed

lemma demo7_eq: "completeOperation (reentering 1 (AddToken 12)) 3 0 demo3 = Inr demo7"
  by (simp add: demo7_def reentering_def demo_defs eval_defs)

lemma demo8_eq: "cancelOperation (reentering 1 (AddToken 12)) 2 0 demo3 = Inr demo8"
  by (simp add: demo8_def reentering_def demo_defs eval_defs)


text \<open>
  C9, as the code has it. A successful \<open>completeOperation(i)\<close> changes, of the
  operation records, the index and the counter, only \<open>status\<close> and \<open>completer\<close> of
  operation \<open>i\<close>, and a successful \<open>cancelOperation(i)\<close> only its \<open>status\<close>: every
  other record, the other six fields of operation \<open>i\<close>, the index and the counter are
  as before, so no record is deleted. This holds with a conforming asset and with an
  asset that calls back into the ledger from within its transfers. The allowlist, and
  with it the whole of the contract's storage outside operation \<open>i\<close>, is unchanged as
  well when the asset is conforming, or when its nested call is one of the three guarded
  calls or is not made by the owner.
\<close>

theorem terminal_frame:
  "(completeOperation conforming sender i w = Inr w' \<longrightarrow>
      escrow w' = (escrow w)\<lparr>operations := (operations (escrow w))
         (i := (opAt w i)\<lparr>status := Completed, completer := sender\<rparr>)\<rparr> \<and>
      (\<forall>j. j \<noteq> i \<longrightarrow> opAt w' j = opAt w j) \<and>
      opAt w' i = (opAt w i)\<lparr>status := Completed, completer := sender\<rparr> \<and>
      getAllowedTokens w' = getAllowedTokens w \<and> allowedTokens (escrow w') = allowedTokens (escrow w) \<and>
      operationIds (escrow w') = operationIds (escrow w) \<and>
      getOperationCount w' = getOperationCount w) \<and>
   (cancelOperation conforming sender i w = Inr w'' \<longrightarrow>
      escrow w'' = (escrow w)\<lparr>operations := (operations (escrow w))
         (i := (opAt w i)\<lparr>status := Cancelled\<rparr>)\<rparr> \<and>
      (\<forall>j. j \<noteq> i \<longrightarrow> opAt w'' j = opAt w j) \<and>
      opAt w'' i = (opAt w i)\<lparr>status := Cancelled\<rparr> \<and>
      getAllowedTokens w'' = getAllowedTokens w \<and> allowedTokens (escrow w'') = allowedTokens (escrow w) \<and>
      operationIds (escrow w'') = operationIds (escrow w) \<and>
      getOperationCount w'' = getOperationCount w) \<and>
   (completeOperation (reentering attacker c) sender i w = Inr v' \<longrightarrow>
      (\<forall>j. j \<noteq> i \<longrightarrow> opAt v' j = opAt w j) \<and>
      opAt v' i = (opAt w i)\<lparr>status := Completed, completer := sender\<rparr> \<and>
      operationIds (escrow v') = operationIds (escrow w) \<and>
      getOperationCount v' = getOperationCount w \<and>
      (guarded c \<or> attacker \<noteq> owner (escrow w) \<longrightarrow>
         escrow v' = (escrow w)\<lparr>operations := (operations (escrow w))
           (i := (opAt w i)\<lparr>status := Completed, completer := sender\<rparr>)\<rparr>)) \<and>
   (cancelOperation (reentering attacker c) sender i w = Inr v'' \<longrightarrow>
      (\<forall>j. j \<noteq> i \<longrightarrow> opAt v'' j = opAt w j) \<and>
      opAt v'' i = (opAt w i)\<lparr>status := Cancelled\<rparr> \<and>
      operationIds (escrow v'') = operationIds (escrow w) \<and>
      getOperationCount v'' = getOperationCount w \<and>
      (guarded c \<or> attacker \<noteq> owner (escrow w) \<longrightarrow>
         escrow v'' = (escrow w)\<lparr>operations := (operations (escrow w))
           (i := (opAt w i)\<lparr>status := Cancelled\<rparr>)\<rparr>))"
proof (intro conjI impI)
  assume a: "completeOperation conforming sender i w = Inr w'"
  note d = completeOperation_InrD(11) [OF a]
  show "escrow w' = (escrow w)\<lparr>operations := (operations (escrow w))
         (i := (opAt w i)\<lparr>status := Completed, completer := sender\<rparr>)\<rparr>" by (rule d)
  show "\<forall>j. j \<noteq> i \<longrightarrow> opAt w' j = opAt w j" by (simp add: opAt_def d)
  show "opAt w' i = (opAt w i)\<lparr>status := Completed, completer := sender\<rparr>" by (simp add: opAt_def d)
  show "getAllowedTokens w' = getAllowedTokens w" by (simp add: getAllowedTokens_def d)
  show "allowedTokens (escrow w') = allowedTokens (escrow w)" by (simp add: d)
  show "operationIds (escrow w') = operationIds (escrow w)" by (simp add: d)
  show "getOperationCount w' = getOperationCount w" by (simp add: getOperationCount_def d)
next
  assume a: "cancelOperation conforming sender i w = Inr w''"
  note d = cancelOperation_InrD(10) [OF a]
  show "escrow w'' = (escrow w)\<lparr>operations := (operations (escrow w))
         (i := (opAt w i)\<lparr>status := Cancelled\<rparr>)\<rparr>" by (rule d)
  show "\<forall>j. j \<noteq> i \<longrightarrow> opAt w'' j = opAt w j" by (simp add: opAt_def d)
  show "opAt w'' i = (opAt w i)\<lparr>status := Cancelled\<rparr>" by (simp add: opAt_def d)
  show "getAllowedTokens w'' = getAllowedTokens w" by (simp add: getAllowedTokens_def d)
  show "allowedTokens (escrow w'') = allowedTokens (escrow w)" by (simp add: d)
  show "operationIds (escrow w'') = operationIds (escrow w)" by (simp add: d)
  show "getOperationCount w'' = getOperationCount w" by (simp add: getOperationCount_def d)
next
  assume a: "completeOperation (reentering attacker c) sender i w = Inr v'"
  note r = reentering_complete_records [OF a]
  show "\<forall>j. j \<noteq> i \<longrightarrow> opAt v' j = opAt w j" by (simp add: opAt_def r(1))
  show "opAt v' i = (opAt w i)\<lparr>status := Completed, completer := sender\<rparr>" by (simp add: opAt_def r(1))
  show "operationIds (escrow v') = operationIds (escrow w)" by (rule r(2))
  show "getOperationCount v' = getOperationCount w" by (simp add: getOperationCount_def r(3))
  assume q: "guarded c \<or> attacker \<noteq> owner (escrow w)"
  from a have "completeOperation conforming sender i w = Inr v'" by (simp add: quiet_complete [OF q])
  then show "escrow v' = (escrow w)\<lparr>operations := (operations (escrow w))
           (i := (opAt w i)\<lparr>status := Completed, completer := sender\<rparr>)\<rparr>"
    by (rule completeOperation_InrD(11))
next
  assume a: "cancelOperation (reentering attacker c) sender i w = Inr v''"
  note r = reentering_cancel_records [OF a]
  show "\<forall>j. j \<noteq> i \<longrightarrow> opAt v'' j = opAt w j" by (simp add: opAt_def r(1))
  show "opAt v'' i = (opAt w i)\<lparr>status := Cancelled\<rparr>" by (simp add: opAt_def r(1))
  show "operationIds (escrow v'') = operationIds (escrow w)" by (rule r(2))
  show "getOperationCount v'' = getOperationCount w" by (simp add: getOperationCount_def r(3))
  assume q: "guarded c \<or> attacker \<noteq> owner (escrow w)"
  from a have "cancelOperation conforming sender i w = Inr v''" by (simp add: quiet_cancel [OF q])
  then show "escrow v'' = (escrow w)\<lparr>operations := (operations (escrow w))
           (i := (opAt w i)\<lparr>status := Cancelled\<rparr>)\<rparr>"
    by (rule cancelOperation_InrD(10))
qed

theorem terminal_frame_witness:
  "completeOperation conforming 3 0 demo3 = Inr demo4 \<and>
   cancelOperation conforming 2 0 demo3 = Inr demo5 \<and>
   completeOperation (reentering 1 (AddToken 12)) 3 0 demo3 = Inr demo7 \<and>
   cancelOperation (reentering 1 (AddToken 12)) 2 0 demo3 = Inr demo8 \<and>
   completeOperation (reentering 3 (AddToken 12)) 3 0 demo3 = Inr demo4 \<and>
   3 \<noteq> owner (escrow demo3) \<and>
   opAt demo4 0 = (opAt demo3 0)\<lparr>status := Completed, completer := 3\<rparr> \<and>
   opAt demo5 0 = (opAt demo3 0)\<lparr>status := Cancelled\<rparr> \<and>
   opAt demo7 0 = (opAt demo3 0)\<lparr>status := Completed, completer := 3\<rparr> \<and>
   opAt demo8 0 = (opAt demo3 0)\<lparr>status := Cancelled\<rparr> \<and>
   getOperationCount demo4 = getOperationCount demo3 \<and>
   getOperationCount demo5 = getOperationCount demo3 \<and>
   getOperationCount demo7 = getOperationCount demo3 \<and>
   getOperationCount demo8 = getOperationCount demo3 \<and>
   allowedTokens (escrow demo4) = allowedTokens (escrow demo3)"
proof -
  have o: "3 \<noteq> owner (escrow demo3)" by (simp add: demo_defs eval_defs)
  then have q: "guarded (AddToken 12) \<or> 3 \<noteq> owner (escrow demo3)" by simp
  have e: "completeOperation (reentering 3 (AddToken 12)) 3 0 demo3 = Inr demo4"
    by (simp add: quiet_complete [OF q] demo4_eq)
  from terminal_frame [where sender = 3 and i = 0 and w = demo3 and w' = demo4
      and attacker = 1 and c = "AddToken 12" and v' = demo7]
    terminal_frame [where sender = 2 and i = 0 and w = demo3 and w'' = demo5
      and attacker = 1 and c = "AddToken 12" and v'' = demo8]
    terminal_frame [where sender = 3 and i = 0 and w = demo3
      and attacker = 3 and c = "AddToken 12" and v' = demo4]
  show ?thesis
    by (simp add: demo4_eq demo5_eq demo7_eq demo8_eq e o)
qed

text \<open>
  C9 as stated fails for the allowlist: an asset that calls \<open>addToken\<close> as the owner from
  within its transfers lets \<open>completeOperation(0)\<close> and \<open>cancelOperation(0)\<close> succeed and
  leaves asset 12 allowlisted, which it was not before the call.
\<close>

theorem terminal_frame_allowlist_counterexample:
  "completeOperation (reentering 1 (AddToken 12)) 3 0 demo3 = Inr demo7 \<and>
   cancelOperation (reentering 1 (AddToken 12)) 2 0 demo3 = Inr demo8 \<and>
   getAllowedTokens demo3 = [10, 11] \<and>
   getAllowedTokens demo7 = [10, 11, 12] \<and>
   getAllowedTokens demo8 = [10, 11, 12] \<and>
   \<not> allowedTokens (escrow demo3) 12 \<and>
   allowedTokens (escrow demo7) 12 \<and> allowedTokens (escrow demo8) 12"
proof -
  have "getAllowedTokens demo3 = [10, 11]" "\<not> allowedTokens (escrow demo3) 12"
    by (simp_all add: getAllowedTokens_def demo_defs eval_defs)
  moreover have "getAllowedTokens demo7 = [10, 11, 12]" "allowedTokens (escrow demo7) 12"
    by (simp_all add: getAllowedTokens_def demo7_def reentering_def demo_defs eval_defs)
  moreover have "getAllowedTokens demo8 = [10, 11, 12]" "allowedTokens (escrow demo8) 12"
    by (simp_all add: getAllowedTokens_def demo8_def reentering_def demo_defs eval_defs)
  ultimately show ?thesis by (simp add: demo7_eq demo8_eq)
qed

lemma move_apply:
  "move token from to n bal X h =
     (if X = token then
        (if h = to then (if h = from then bal token h - n + n else bal token h + n)
         else if h = from then bal token h - n else bal token h)
      else bal X h)"
  by (simp add: move_def Let_def)

text \<open>
  C8. If a \<open>createOperation\<close> succeeds and its creator then successfully cancels the
  operation it created, the creator's balance of \<open>tokenA\<close> is what it was before the
  create.
\<close>

theorem create_cancel_round_trip:
  assumes "createOperation conforming sender tA tB aA aB w = Inr w1"
    and "cancelOperation conforming sender (operationCounter (escrow w)) w1 = Inr w2"
  shows "balances w2 tA sender = balances w tA sender"
proof -
  note c = createOperation_InrD [OF assms(1)]
  note k = cancelOperation_InrD [OF assms(2)]
  have p: "opAt w1 (operationCounter (escrow w)) =
      \<lparr>op_id = operationCounter (escrow w), creator = sender, tokenA = tA, tokenB = tB,
       amountA = aA, amountB = aB, status = Active, completer = 0\<rparr>"
    by (simp add: opAt_def c(13))
  from k(5) have enough: "unat aA \<le> balances w1 tA (this w)" by (simp add: p c(10))
  have "balances w2 tA sender =
      move tA (this w) sender (unat aA) (move tA sender (this w) (unat aA) (balances w)) tA sender"
    by (simp add: k(9) p c(10) c(11))
  also have "\<dots> = balances w tA sender"
    using c(8) enough by (cases "sender = this w") (simp_all add: c(11) move_apply)
  finally show ?thesis .
qed

theorem create_cancel_round_trip_witness:
  "createOperation conforming 2 10 11 100 50 demo2 = Inr demo3 \<and>
   cancelOperation conforming 2 (operationCounter (escrow demo2)) demo3 = Inr demo5 \<and>
   balances demo3 10 2 = 900 \<and> balances demo5 10 2 = 1000 \<and> balances demo2 10 2 = 1000"
proof -
  have c: "operationCounter (escrow demo2) = 0" by (simp add: demo_defs eval_defs)
  have b: "balances demo2 10 2 = 1000" "balances demo3 10 2 = 900"
    by (simp_all add: demo_defs eval_defs)
  from create_cancel_round_trip [OF demo3_eq, of demo5] show ?thesis
    by (simp add: c b demo3_eq demo5_eq)
qed

section \<open>Conservation of custody\<close>

lemma custodied_sum: "custodied w X = (\<Sum>j\<leftarrow>operationIds (escrow w). held X (opAt w j))"
  by (simp add: custodied_def getAllOperations_def sum_list_map_filter' held_def opAt_def comp_def)

lemma ids_mem: "j \<in> set (map word_of_nat [0..<unat c]) \<longleftrightarrow> j < c" for c j :: uint256
proof
  assume "j \<in> set (map word_of_nat [0..<unat c])"
  then obtain k where k: "k < unat c" "j = word_of_nat k" by auto
  from k(1) have "unat (word_of_nat k :: uint256) = k"
    by (intro le_unat_uoi [of k c]) simp
  with k show "j < c" by (simp add: word_less_nat_alt)
next
  assume "j < c"
  then have "unat j < unat c" by (simp add: word_less_nat_alt)
  moreover have "j = word_of_nat (unat j)" by simp
  ultimately show "j \<in> set (map word_of_nat [0..<unat c])"
    by (metis atLeastLessThan_iff atLeastLessThan_upt image_eqI le0 list.set_map)
qed

lemma ids_distinct: "distinct (map word_of_nat [0..<unat c] :: uint256 list)" for c :: uint256
proof -
  have "inj_on (word_of_nat :: nat \<Rightarrow> uint256) (set [0..<unat c])"
  proof (rule inj_onI)
    fix x y assume x: "x \<in> set [0..<unat c]" and y: "y \<in> set [0..<unat c]"
      and e: "(word_of_nat x :: uint256) = word_of_nat y"
    from x have "x \<le> unat c" by simp
    then have ux: "unat (word_of_nat x :: uint256) = x" by (rule le_unat_uoi)
    from y have "y \<le> unat c" by simp
    then have uy: "unat (word_of_nat y :: uint256) = y" by (rule le_unat_uoi)
    have "x = unat (word_of_nat x :: uint256)" by (simp only: ux)
    also have "\<dots> = unat (word_of_nat y :: uint256)" by (simp only: e)
    also have "\<dots> = y" by (simp only: uy)
    finally show "x = y" .
  qed
  then show ?thesis by (simp add: distinct_map)
qed

lemma ids_Suc:
  "c \<noteq> - 1 \<Longrightarrow> map word_of_nat [0..<unat (c + 1)] = map word_of_nat [0..<unat c] @ [c]"
  for c :: uint256
  by (simp add: unat_inc)

lemma sum_list_fun_upd_notin:
  "i \<notin> set xs \<Longrightarrow> (\<Sum>j\<leftarrow>xs. f ((g(i := v)) j)) = (\<Sum>j\<leftarrow>xs. f (g j))"
  by (rule arg_cong [where f = sum_list]) (auto intro: map_cong)

lemma sum_list_fun_upd:
  fixes f :: "'v \<Rightarrow> nat"
  assumes "distinct xs" "i \<in> set xs"
  shows "(\<Sum>j\<leftarrow>xs. f ((g(i := v)) j)) + f (g i) = (\<Sum>j\<leftarrow>xs. f (g j)) + f v"
proof -
  have n: "i \<notin> set (remove1 i xs)" using assms(1) by (simp add: set_remove1_eq)
  have "(\<Sum>j\<leftarrow>xs. f ((g(i := v)) j)) = f v + (\<Sum>j\<leftarrow>remove1 i xs. f ((g(i := v)) j))"
    using sum_list_map_remove1 [OF assms(2), where f = "\<lambda>j. f ((g(i := v)) j)"] by simp
  also have "(\<Sum>j\<leftarrow>remove1 i xs. f ((g(i := v)) j)) = (\<Sum>j\<leftarrow>remove1 i xs. f (g j))"
    by (rule sum_list_fun_upd_notin [OF n])
  finally have a: "(\<Sum>j\<leftarrow>xs. f ((g(i := v)) j)) = f v + (\<Sum>j\<leftarrow>remove1 i xs. f (g j))" .
  have b: "(\<Sum>j\<leftarrow>xs. f (g j)) = f (g i) + (\<Sum>j\<leftarrow>remove1 i xs. f (g j))"
    using sum_list_map_remove1 [OF assms(2), where f = "\<lambda>j. f (g j)"] by simp
  from a b show ?thesis by simp
qed

lemma ledger_ok_deploy: "ledger_ok (deploy sender addr bal alw)"
  by (simp add: ledger_ok_def deploy_def constructor_def opAt_def zeroOperation_def
      custodied_def getAllOperations_def)

lemma ledger_ok_addToken:
  assumes "ledger_ok w" "addToken sender token w = Inr w'"
  shows "ledger_ok w'"
  using assms(1) unfolding addToken_InrD(4) [OF assms(2)]
  by (simp add: ledger_ok_def custodied_def getAllOperations_def world_defs)

lemma ledger_ok_create:
  assumes ok: "ledger_ok w" and s0: "sender \<noteq> 0" and st: "sender \<noteq> this w"
    and c: "createOperation conforming sender tA tB aA aB w = Inr w'"
  shows "ledger_ok w'"
proof -
  note d = createOperation_InrD [OF c]
  let ?n = "operationCounter (escrow w)"
  let ?new = "\<lparr>op_id = ?n, creator = sender, tokenA = tA, tokenB = tB,
           amountA = aA, amountB = aB, status = Active, completer = 0\<rparr>"
  from ok have ids: "operationIds (escrow w) = map word_of_nat [0..<unat ?n]"
    and recs: "\<And>j. j < ?n \<Longrightarrow> creator (opAt w j) \<noteq> 0 \<and> creator (opAt w j) \<noteq> this w \<and> op_id (opAt w j) = j"
    and act: "\<And>j. status (opAt w j) = Active \<Longrightarrow> completer (opAt w j) = 0"
    and bal: "\<And>X. balances w X (this w) = custodied w X"
    by (simp_all add: ledger_ok_def)
  have ops: "opAt w' = (opAt w)(?n := ?new)"
    by (rule ext) (simp add: opAt_def d(13))
  have cnt: "operationCounter (escrow w') = ?n + 1" by (simp add: d(13))
  have ids': "operationIds (escrow w') = operationIds (escrow w) @ [?n]" by (simp add: d(13))
  have 1: "operationIds (escrow w') = map word_of_nat [0..<unat (operationCounter (escrow w'))]"
    by (simp add: ids' cnt ids ids_Suc [OF d(9)])
  have 2: "creator (opAt w' j) \<noteq> 0 \<and> creator (opAt w' j) \<noteq> this w' \<and> op_id (opAt w' j) = j"
    if "j < operationCounter (escrow w')" for j
  proof (cases "j = ?n")
    case True
    then show ?thesis using s0 st by (simp add: ops d(10))
  next
    case False
    with that have "j < ?n" by (simp add: cnt less_inc_iff [OF d(9)])
    from recs [OF this] False show ?thesis by (simp add: ops d(10))
  qed
  have 3: "completer (opAt w' j) = 0" if "status (opAt w' j) = Active" for j
    using that act [of j] by (cases "j = ?n") (simp_all add: ops)
  have 4: "balances w' X (this w') = custodied w' X" for X
  proof -
    have notin: "?n \<notin> set (operationIds (escrow w))" by (simp add: ids ids_mem del: set_map set_upt)
    have "custodied w' X = (\<Sum>j\<leftarrow>operationIds (escrow w). held X (((opAt w)(?n := ?new)) j)) + held X ?new"
      by (simp add: custodied_sum ids' ops)
    also have "(\<Sum>j\<leftarrow>operationIds (escrow w). held X (((opAt w)(?n := ?new)) j)) = custodied w X"
      unfolding custodied_sum by (rule sum_list_fun_upd_notin [OF notin])
    finally have "custodied w' X = custodied w X + held X ?new" .
    moreover have "balances w' X (this w') = balances w X (this w) + held X ?new"
      using st by (auto simp add: d(10) d(11) move_apply held_def)
    ultimately show ?thesis by (simp add: bal)
  qed
  from 1 2 3 4 show ?thesis unfolding ledger_ok_def by blast
qed


lemma custody_after_terminal:
  assumes ok: "ledger_ok w" and sb: "stable w" and ex: "creator (opAt w i) \<noteq> 0"
    and ops: "opAt w' = (opAt w)(i := p)" and hp: "held X p = 0"
    and ids: "operationIds (escrow w') = operationIds (escrow w)"
  shows "custodied w' X + held X (opAt w i) = custodied w X"
proof -
  from ok have l: "operationIds (escrow w) = map word_of_nat [0..<unat (operationCounter (escrow w))]"
    by (simp add: ledger_ok_def)
  from sb ex have "i < operationCounter (escrow w)" by (simp add: stable_def)
  then have mem: "i \<in> set (operationIds (escrow w))"
    by (simp add: l ids_mem del: set_map set_upt)
  have dist: "distinct (operationIds (escrow w))" by (simp only: l ids_distinct)
  from sum_list_fun_upd [OF dist mem, of "held X" "opAt w" p]
  show ?thesis by (simp add: custodied_sum ids ops hp)
qed

lemma ledger_ok_complete:
  assumes ok: "ledger_ok w" and sb: "stable w" and st: "sender \<noteq> this w"
    and c: "completeOperation conforming sender i w = Inr w'"
  shows "ledger_ok w'"
proof -
  note d = completeOperation_InrD [OF c]
  let ?p = "(opAt w i)\<lparr>status := Completed, completer := sender\<rparr>"
  from ok have ids: "operationIds (escrow w) = map word_of_nat [0..<unat (operationCounter (escrow w))]"
    and recs: "\<And>j. j < operationCounter (escrow w) \<Longrightarrow>
        creator (opAt w j) \<noteq> 0 \<and> creator (opAt w j) \<noteq> this w \<and> op_id (opAt w j) = j"
    and act: "\<And>j. status (opAt w j) = Active \<Longrightarrow> completer (opAt w j) = 0"
    and bal: "\<And>X. balances w X (this w) = custodied w X"
    by (simp_all add: ledger_ok_def)
  have ops: "opAt w' = (opAt w)(i := ?p)"
    by (rule ext) (simp add: opAt_def d(11))
  from sb d(2) have lt: "i < operationCounter (escrow w)" by (simp add: stable_def)
  from recs [OF lt] have cr: "creator (opAt w i) \<noteq> this w" by simp
  have 1: "operationIds (escrow w') = map word_of_nat [0..<unat (operationCounter (escrow w'))]"
    by (simp add: d(11) ids)
  have 2: "creator (opAt w' j) \<noteq> 0 \<and> creator (opAt w' j) \<noteq> this w' \<and> op_id (opAt w' j) = j"
    if "j < operationCounter (escrow w')" for j
  proof -
    from that have "j < operationCounter (escrow w)" by (simp add: d(11))
    from recs [OF this] show ?thesis by (cases "j = i") (simp_all add: ops d(8))
  qed
  have 3: "completer (opAt w' j) = 0" if "status (opAt w' j) = Active" for j
    using that act [of j] by (cases "j = i") (simp_all add: ops)
  have 4: "balances w' X (this w') = custodied w' X" for X
  proof -
    have cust: "custodied w' X + held X (opAt w i) = custodied w X"
      by (rule custody_after_terminal [OF ok sb d(2) ops]) (simp_all add: held_def d(11))
    have inner: "move (tokenB (opAt w i)) sender (creator (opAt w i)) (unat (amountB (opAt w i)))
         (balances w) Y (this w) = balances w Y (this w)" for Y
      using st cr by (simp add: move_apply)
    from d(7) have enough: "unat (amountA (opAt w i)) \<le> balances w (tokenA (opAt w i)) (this w)"
      by (simp add: inner)
    have "balances w' X (this w') + held X (opAt w i) = balances w X (this w)"
      using st enough by (auto simp add: d(8) d(10) move_apply [where to = sender] inner held_def d(3))
    with cust bal [of X] show ?thesis by simp
  qed
  from 1 2 3 4 show ?thesis unfolding ledger_ok_def by blast
qed

lemma ledger_ok_cancel:
  assumes ok: "ledger_ok w" and sb: "stable w"
    and c: "cancelOperation conforming sender i w = Inr w'"
  shows "ledger_ok w'"
proof -
  note d = cancelOperation_InrD [OF c]
  let ?p = "(opAt w i)\<lparr>status := Cancelled\<rparr>"
  from ok have ids: "operationIds (escrow w) = map word_of_nat [0..<unat (operationCounter (escrow w))]"
    and recs: "\<And>j. j < operationCounter (escrow w) \<Longrightarrow>
        creator (opAt w j) \<noteq> 0 \<and> creator (opAt w j) \<noteq> this w \<and> op_id (opAt w j) = j"
    and act: "\<And>j. status (opAt w j) = Active \<Longrightarrow> completer (opAt w j) = 0"
    and bal: "\<And>X. balances w X (this w) = custodied w X"
    by (simp_all add: ledger_ok_def)
  have ops: "opAt w' = (opAt w)(i := ?p)"
    by (rule ext) (simp add: opAt_def d(10))
  from sb d(2) have lt: "i < operationCounter (escrow w)" by (simp add: stable_def)
  from recs [OF lt] have cr: "creator (opAt w i) \<noteq> this w" by simp
  have 1: "operationIds (escrow w') = map word_of_nat [0..<unat (operationCounter (escrow w'))]"
    by (simp add: d(10) ids)
  have 2: "creator (opAt w' j) \<noteq> 0 \<and> creator (opAt w' j) \<noteq> this w' \<and> op_id (opAt w' j) = j"
    if "j < operationCounter (escrow w')" for j
  proof -
    from that have "j < operationCounter (escrow w)" by (simp add: d(10))
    from recs [OF this] show ?thesis by (cases "j = i") (simp_all add: ops d(6))
  qed
  have 3: "completer (opAt w' j) = 0" if "status (opAt w' j) = Active" for j
    using that act [of j] by (cases "j = i") (simp_all add: ops)
  have 4: "balances w' X (this w') = custodied w' X" for X
  proof -
    have cust: "custodied w' X + held X (opAt w i) = custodied w X"
      by (rule custody_after_terminal [OF ok sb d(2) ops]) (simp_all add: held_def d(10))
    have "balances w' X (this w') + held X (opAt w i) = balances w X (this w)"
      using cr d(5) by (auto simp add: d(6) d(9) move_apply held_def d(3))
    with cust bal [of X] show ?thesis by simp
  qed
  from 1 2 3 4 show ?thesis unfolding ledger_ok_def by blast
qed

lemma reachable_ledger_ok: "reachable w \<Longrightarrow> ledger_ok w"
proof (induction rule: reachable.induct)
  case (deployed sender addr bal alw)
  show ?case by (rule ledger_ok_deploy)
next
  case (called w sender c r w')
  have sb: "stable w" by (rule reachable_stable [OF called.hyps(1)])
  note ok = called.IH
  note run = invoke_InrD(2) [OF called.hyps(4)]
  show ?case
  proof (cases c)
    case (AddToken token)
    with run show ?thesis by (auto intro: ledger_ok_addToken [OF ok])
  next
    case (CreateOperation tA tB aA aB)
    with run show ?thesis
      by (auto intro: ledger_ok_create [OF ok called.hyps(2) called.hyps(3)])
  next
    case (CompleteOperation i)
    with run show ?thesis by (auto intro: ledger_ok_complete [OF ok sb called.hyps(3)])
  next
    case (CancelOperation i)
    with run show ?thesis by (auto intro: ledger_ok_cancel [OF ok sb])
  qed
qed

text \<open>
  C1. In every state reachable from deployment by calls of \<open>addToken\<close>,
  \<open>createOperation\<close>, \<open>completeOperation\<close> and \<open>cancelOperation\<close> with conforming
  assets, the contract's balance of each asset \<open>X\<close> is the sum of \<open>amountA\<close> over the
  operations whose \<open>tokenA\<close> is \<open>X\<close> and whose status is \<open>Active\<close>.
\<close>

theorem conservation_of_custody:
  assumes "reachable w"
  shows "balances w X (this w) = custodied w X"
  using reachable_ledger_ok [OF assms] by (simp add: ledger_ok_def)

theorem conservation_of_custody_witness:
  "reachable demo3 \<and> reachable demo4 \<and>
   balances demo3 10 (this demo3) = 100 \<and> custodied demo3 10 = 100 \<and>
   balances demo4 10 (this demo4) = 0 \<and> custodied demo4 10 = 0"
proof -
  have "balances demo3 10 (this demo3) = 100" "balances demo4 10 (this demo4) = 0"
    by (simp_all add: demo_defs eval_defs)
  with conservation_of_custody [OF reachable_demo3, of 10]
    conservation_of_custody [OF reachable_demo4, of 10]
  show ?thesis by (simp add: reachable_demo3 reachable_demo4)
qed

text \<open>
  C10. In every reachable state a record exists for an id (its creator is not the zero
  address, so \<open>getOperation\<close> succeeds) exactly when the id is below
  \<open>getOperationCount()\<close>; \<open>getAllOperations()\<close> returns that many records, and the one
  at position \<open>k\<close> is the record of id \<open>k\<close>.
\<close>

theorem existence_coincides_with_counter:
  assumes "reachable w"
  shows "(creator (opAt w i) \<noteq> 0 \<longleftrightarrow> i < getOperationCount w) \<and>
    ((\<exists>p. getOperation w i = Inr p) \<longleftrightarrow> i < getOperationCount w) \<and>
    length (getAllOperations w) = unat (getOperationCount w) \<and>
    (\<forall>k < unat (getOperationCount w).
       getAllOperations w ! k = opAt w (word_of_nat k) \<and>
       op_id (getAllOperations w ! k) = word_of_nat k)"
proof -
  from reachable_stable [OF assms]
  have up: "\<And>j. creator (opAt w j) \<noteq> 0 \<Longrightarrow> j < operationCounter (escrow w)"
    by (simp add: stable_def)
  from reachable_ledger_ok [OF assms]
  have ids: "operationIds (escrow w) = map word_of_nat [0..<unat (operationCounter (escrow w))]"
    and recs: "\<And>j. j < operationCounter (escrow w) \<Longrightarrow>
        creator (opAt w j) \<noteq> 0 \<and> creator (opAt w j) \<noteq> this w \<and> op_id (opAt w j) = j"
    by (simp_all add: ledger_ok_def)
  have a: "creator (opAt w i) \<noteq> 0 \<longleftrightarrow> i < getOperationCount w"
    using up [of i] recs [of i] by (auto simp add: getOperationCount_def)
  have b: "(\<exists>p. getOperation w i = Inr p) \<longleftrightarrow> creator (opAt w i) \<noteq> 0"
    by (simp add: getOperation_def)
  have c: "length (getAllOperations w) = unat (getOperationCount w)"
    by (simp add: getAllOperations_def getOperationCount_def ids)
  have d: "getAllOperations w ! k = opAt w (word_of_nat k) \<and>
       op_id (getAllOperations w ! k) = word_of_nat k" if "k < unat (getOperationCount w)" for k
  proof -
    from that have k: "k < unat (operationCounter (escrow w))" by (simp add: getOperationCount_def)
    then have "(word_of_nat k :: uint256) \<in> set (map word_of_nat [0..<unat (operationCounter (escrow w))])"
      by simp
    then have "(word_of_nat k :: uint256) < operationCounter (escrow w)" by (simp only: ids_mem)
    from recs [OF this] have "op_id (opAt w (word_of_nat k)) = word_of_nat k" by simp
    moreover have "getAllOperations w ! k = opAt w (word_of_nat k)"
      using k by (simp add: getAllOperations_def ids opAt_def)
    ultimately show ?thesis by simp
  qed
  from a b c d show ?thesis by blast
qed

theorem existence_coincides_with_counter_witness:
  "reachable demo4 \<and> getOperationCount demo4 = 1 \<and>
   creator (opAt demo4 0) \<noteq> 0 \<and> creator (opAt demo4 1) = 0 \<and>
   getOperation demo4 1 = Inl (StateError ''Operation does not exist'') \<and>
   length (getAllOperations demo4) = 1 \<and> op_id (getAllOperations demo4 ! 0) = 0"
proof -
  have c: "getOperationCount demo4 = 1"
    by (simp add: getOperationCount_def demo_defs eval_defs)
  from existence_coincides_with_counter [OF reachable_demo4, of 0]
    existence_coincides_with_counter [OF reachable_demo4, of 1]
  show ?thesis
    by (simp add: c reachable_demo4 getOperation_def)
qed

section \<open>Atomicity of completion\<close>

lemma demo6_eq: "createOperation conforming 2 10 11 100 600 demo3 = Inr demo6"
  by (simp add: demo6_def demo_defs eval_defs)

lemma reachable_demo6: "reachable demo6"
  by (rule reachable.called [OF reachable_demo3, of 2 "CreateOperation 10 11 100 600" "[]"])
     (simp_all add: demo6_eq, simp add: demo_defs eval_defs)

lemma demo6_op:
  "opAt demo6 1 = \<lparr>op_id = 1, creator = 2, tokenA = 10, tokenB = 11, amountA = 100,
     amountB = 600, status = Active, completer = 0\<rparr>"
  by (simp add: demo6_def demo_defs eval_defs)

lemma demo6_free: "\<not> entered (escrow demo6)"
  by (simp add: demo6_def demo_defs eval_defs)

lemma demo6_declined:
  "moveIn 11 3 2 600
     (storeOperation 1 ((opAt demo6 1)\<lparr>status := Completed, completer := 3\<rparr>) (engage demo6))
   = Inl TransferError"
  by (simp add: demo6_def demo_defs eval_defs)

text \<open>
  C2. When a \<open>completeOperation\<close> that has passed its checks meets a failing transfer,
  the first (\<open>amountB\<close> of \<open>tokenB\<close> from the caller to the creator, attempted on the
  world \<open>w1\<close> that already holds the status write) or, after it, the second
  (\<open>amountA\<close> of \<open>tokenA\<close> to the caller), the call reverts with that failure: the
  state is the one before the call, the operation is still \<open>Active\<close>, its completer is
  as before (unset, in a reachable state), and no balance has moved.
\<close>

theorem completeOperation_atomic:
  assumes "\<not> entered (escrow w)" "creator (opAt w i) \<noteq> 0" "status (opAt w i) = Active"
    "sender \<noteq> creator (opAt w i)"
    and w1: "w1 = storeOperation i ((opAt w i)\<lparr>status := Completed, completer := sender\<rparr>) (engage w)"
    and fails: "safeTransferFrom P (tokenB (opAt w1 i)) sender (creator (opAt w1 i)) (amountB (opAt w1 i)) w1 = Inl e
       \<or> (\<exists>w2. safeTransferFrom P (tokenB (opAt w1 i)) sender (creator (opAt w1 i)) (amountB (opAt w1 i)) w1 = Inr w2
            \<and> safeTransfer P (tokenA (opAt w2 i)) sender (amountA (opAt w2 i)) w2 = Inl e)"
  shows "completeOperation P sender i w = Inl e \<and>
    settle w (completeOperation P sender i w) = w \<and>
    status (opAt (settle w (completeOperation P sender i w)) i) = Active \<and>
    completer (opAt (settle w (completeOperation P sender i w)) i) = completer (opAt w i) \<and>
    (reachable w \<longrightarrow> completer (opAt (settle w (completeOperation P sender i w)) i) = 0) \<and>
    balances (settle w (completeOperation P sender i w)) = balances w"
proof -
  have body: "completeOperation P sender i w =
    (case (case safeTransferFrom P (tokenB (opAt w1 i)) sender (creator (opAt w1 i)) (amountB (opAt w1 i)) w1 of
              Inl e \<Rightarrow> Inl e
            | Inr w2 \<Rightarrow>
                (case safeTransfer P (tokenA (opAt w2 i)) sender (amountA (opAt w2 i)) w2 of
                   Inl e \<Rightarrow> Inl e
                 | Inr w3 \<Rightarrow> Inr (emit (OperationCompleted i sender) w3))) of
       Inl e \<Rightarrow> Inl e | Inr w' \<Rightarrow> Inr (release w'))"
    using assms(1-4) unfolding completeOperation_def nonReentrant_def w1
    by (simp add: opAt_def engage_def storeOperation_def Let_def)
  from fails have r: "completeOperation P sender i w = Inl e"
  proof
    assume "safeTransferFrom P (tokenB (opAt w1 i)) sender (creator (opAt w1 i)) (amountB (opAt w1 i)) w1 = Inl e"
    then show ?thesis by (simp add: body)
  next
    assume "\<exists>w2. safeTransferFrom P (tokenB (opAt w1 i)) sender (creator (opAt w1 i)) (amountB (opAt w1 i)) w1 = Inr w2
            \<and> safeTransfer P (tokenA (opAt w2 i)) sender (amountA (opAt w2 i)) w2 = Inl e"
    then obtain w2 where
      "safeTransferFrom P (tokenB (opAt w1 i)) sender (creator (opAt w1 i)) (amountB (opAt w1 i)) w1 = Inr w2"
      "safeTransfer P (tokenA (opAt w2 i)) sender (amountA (opAt w2 i)) w2 = Inl e" by blast
    then show ?thesis by (simp add: body)
  qed
  have unset: "completer (opAt w i) = 0" if "reachable w"
    using reachable_ledger_ok [OF that] assms(3) by (simp add: ledger_ok_def)
  from r unset assms(3) show ?thesis by simp
qed

theorem completeOperation_atomic_witness:
  "\<not> entered (escrow demo6) \<and> creator (opAt demo6 1) = 2 \<and> status (opAt demo6 1) = Active \<and>
   reachable demo6 \<and>
   moveIn 11 3 2 600
     (storeOperation 1 ((opAt demo6 1)\<lparr>status := Completed, completer := 3\<rparr>) (engage demo6))
     = Inl TransferError \<and>
   completeOperation conforming 3 1 demo6 = Inl TransferError \<and>
   status (opAt (settle demo6 (completeOperation conforming 3 1 demo6)) 1) = Active \<and>
   completer (opAt (settle demo6 (completeOperation conforming 3 1 demo6)) 1) = 0"
proof -
  let ?w1 = "storeOperation 1 ((opAt demo6 1)\<lparr>status := Completed, completer := 3\<rparr>) (engage demo6)"
  have c: "creator (opAt demo6 1) \<noteq> 0" and s: "status (opAt demo6 1) = Active"
    and a: "3 \<noteq> creator (opAt demo6 1)"
    by (simp_all add: demo6_op)
  have "safeTransferFrom conforming (tokenB (opAt ?w1 1)) 3 (creator (opAt ?w1 1))
      (amountB (opAt ?w1 1)) ?w1 = Inl TransferError"
    by (simp add: demo6_def demo_defs eval_defs)
  then have fl: "safeTransferFrom conforming (tokenB (opAt ?w1 1)) 3 (creator (opAt ?w1 1))
      (amountB (opAt ?w1 1)) ?w1 = Inl TransferError \<or>
    (\<exists>w2. safeTransferFrom conforming (tokenB (opAt ?w1 1)) 3 (creator (opAt ?w1 1))
      (amountB (opAt ?w1 1)) ?w1 = Inr w2 \<and>
      safeTransfer conforming (tokenA (opAt w2 1)) 3 (amountA (opAt w2 1)) w2 = Inl TransferError)"
    by (rule disjI1)
  from completeOperation_atomic [OF demo6_free c s a refl fl] reachable_demo6
  have "completeOperation conforming 3 1 demo6 = Inl TransferError \<and>
    status (opAt (settle demo6 (completeOperation conforming 3 1 demo6)) 1) = Active \<and>
    completer (opAt (settle demo6 (completeOperation conforming 3 1 demo6)) 1) = 0"
    by blast
  with demo6_free demo6_declined reachable_demo6 show ?thesis
    by (simp add: demo6_op)
qed

end
